theory Spec2Isabelle
  imports Main "HOL-Library.Multiset" "HOL-Library.List_Lexorder" "HOL-Library.Char_ord"
begin

section \<open>Data model\<close>

text \<open>
  The program is \<^verbatim>\<open>tut_01/main.py\<close>: a table of student rows is split into branch buckets
  by the roll number (\<^verbatim>\<open>split_by_branch\<close>), the buckets are redistributed into
  \<^verbatim>\<open>group_count\<close> groups in two ways (\<^verbatim>\<open>uniform_distribution\<close>,
  \<^verbatim>\<open>mixed_distribution\<close>) and the written group files are summarised
  (\<^verbatim>\<open>generate_summary\<close>).

  A row of the table is the text of its \<^verbatim>\<open>Roll\<close> cell (\<^verbatim>\<open>str(row['Roll'])\<close>) together
  with the remaining cells. Identifiers are byte strings; the character classes of the two
  regular expressions are read over ASCII.

  A Python \<^verbatim>\<open>dict\<close> keeps insertion order and has unique keys: the bucket mapping is an
  association list in iteration order. Files written by a function are its result: the
  list of groups, group \<^verbatim>\<open>i+1\<close> at index \<^verbatim>\<open>i\<close>.

  Exceptions are values: every function that can raise returns \<open>py_error + result\<close>.
\<close>

datatype py_error = ZeroDivisionError | IndexError | ValueError

record row =
  Roll :: string
  cells :: "string list"

type_synonym 'r buckets = "(string \<times> 'r list) list"

subsection \<open>Python primitives\<close>

text \<open>\<^verbatim>\<open>divmod(a, b)\<close>: floor division, the remainder has the sign of the divisor, and a zero
  divisor raises. HOL's \<open>div\<close> and \<open>mod\<close> on \<open>int\<close> round the same way.\<close>

definition py_divmod :: "int \<Rightarrow> int \<Rightarrow> py_error + int \<times> int" where
  "py_divmod a b = (if b = 0 then Inl ZeroDivisionError else Inr (a div b, a mod b))"

text \<open>A slice bound: a negative bound counts from the end, then the bound is clamped to
  the sequence.\<close>

definition slice_bound :: "nat \<Rightarrow> int \<Rightarrow> nat" where
  "slice_bound n i = (if i < 0 then nat (max 0 (int n + i)) else min n (nat i))"

text \<open>\<^verbatim>\<open>xs[start:end]\<close> (also \<^verbatim>\<open>merged.iloc[start:end, :]\<close>).\<close>

definition py_slice :: "'a list \<Rightarrow> int \<Rightarrow> int \<Rightarrow> 'a list" where
  "py_slice xs start end =
     (let s = slice_bound (length xs) start; e = slice_bound (length xs) end
      in take (e - s) (drop s xs))"

text \<open>\<^verbatim>\<open>groups[i].append(x)\<close>: a negative index counts from the end; an index outside the
  list raises \<^verbatim>\<open>IndexError\<close>.\<close>

definition append_at :: "'a list list \<Rightarrow> int \<Rightarrow> 'a \<Rightarrow> py_error + 'a list list" where
  "append_at groups i x =
     (let n = int (length groups); j = (if i < 0 then n + i else i)
      in if 0 \<le> j \<and> j < n then Inr (groups[nat j := groups ! nat j @ [x]])
         else Inl IndexError)"

text \<open>\<^verbatim>\<open>sorted(items, key=f, reverse=True)\<close>: Python reverses the list, sorts it stably by the
  key in ascending order and reverses the result, so that equal keys keep their original
  order.\<close>

definition sorted_reverse :: "('a \<Rightarrow> nat) \<Rightarrow> 'a list \<Rightarrow> 'a list" where
  "sorted_reverse f xs = rev (sort_key f (rev xs))"

subsection \<open>Branch classifier\<close>

definition is_digit :: "char \<Rightarrow> bool" where
  "is_digit c = (CHR ''0'' \<le> c \<and> c \<le> CHR ''9'')"

definition is_alpha :: "char \<Rightarrow> bool" where
  "is_alpha c = ((CHR ''A'' \<le> c \<and> c \<le> CHR ''Z'') \<or> (CHR ''a'' \<le> c \<and> c \<le> CHR ''z''))"

text \<open>\<^verbatim>\<open>str.upper\<close> on the characters the patterns capture (ASCII letters).\<close>

definition upper_char :: "char \<Rightarrow> char" where
  "upper_char c =
     (if CHR ''a'' \<le> c \<and> c \<le> CHR ''z'' then char_of (of_char c - (32::nat)) else c)"

definition upper :: "string \<Rightarrow> string" where
  "upper s = map upper_char s"

text \<open>\<^verbatim>\<open>re.compile(r'^[0-9]{4}([A-Za-z]{2})[0-9]{2}').match(s)\<close>: the pattern is anchored at
  the start only, so the identifier may continue after the eighth character. The result
  is \<^verbatim>\<open>match.group(1)\<close>, or \<open>None\<close> when there is no match.\<close>

definition pattern_match :: "string \<Rightarrow> string option" where
  "pattern_match s =
     (if 8 \<le> length s
         \<and> list_all is_digit (take 4 s)
         \<and> list_all is_alpha (take 2 (drop 4 s))
         \<and> list_all is_digit (take 2 (drop 6 s))
      then Some (take 2 (drop 4 s)) else None)"

text \<open>\<^verbatim>\<open>grouped.setdefault(code, []).append(r)\<close> on the ordered dictionary.\<close>

fun setdefault_append :: "string \<Rightarrow> 'r \<Rightarrow> 'r buckets \<Rightarrow> 'r buckets" where
  "setdefault_append code r [] = [(code, [r])]"
| "setdefault_append code r ((k, rs) # rest) =
     (if k = code then (k, rs @ [r]) # rest
      else (k, rs) # setdefault_append code r rest)"

text \<open>The loop over \<^verbatim>\<open>df.iterrows()\<close>. The state is the dictionary \<^verbatim>\<open>grouped\<close> and the
  rows reported by \<^verbatim>\<open>print("Invalid Roll Number:", ...)\<close>, in the order printed.\<close>

fun split_loop :: "row list \<Rightarrow> row buckets \<times> row list \<Rightarrow> row buckets \<times> row list" where
  "split_loop [] st = st"
| "split_loop (r # rest) (grouped, invalid) =
     (case pattern_match (Roll r) of
        Some m \<Rightarrow> split_loop rest (setdefault_append (upper m) r grouped, invalid)
      | None \<Rightarrow> split_loop rest (grouped, invalid @ [r]))"

definition split_by_branch :: "row list \<Rightarrow> row buckets \<times> row list" where
  "split_by_branch df = split_loop df ([], [])"

subsection \<open>Uniform distributor\<close>

text \<open>The loop \<^verbatim>\<open>for i in range(group_count)\<close>, with its remaining iterations counted
  down; the state is \<^verbatim>\<open>remainder\<close> and \<^verbatim>\<open>pointer\<close>, the result the subsets written.\<close>

fun uniform_loop :: "'r list \<Rightarrow> int \<Rightarrow> nat \<Rightarrow> int \<Rightarrow> int \<Rightarrow> 'r list list" where
  "uniform_loop merged sz 0 remainder pointer = []"
| "uniform_loop merged sz (Suc k) remainder pointer =
     (let start = pointer;
          end = pointer + sz + (if remainder > 0 then 1 else 0);
          subset = py_slice merged start end;
          remainder' = remainder - (if remainder > 0 then 1 else 0)
      in subset # uniform_loop merged sz k remainder' end)"

text \<open>\<^verbatim>\<open>pd.concat\<close> of an empty list of frames raises \<^verbatim>\<open>ValueError\<close> ("No objects to
  concatenate"); it is evaluated before \<^verbatim>\<open>divmod\<close>.\<close>

definition uniform_distribution :: "'r buckets \<Rightarrow> int \<Rightarrow> py_error + 'r list list" where
  "uniform_distribution branch_data group_count =
     (let ordered = sorted_reverse (\<lambda>x. length (snd x)) branch_data
      in if ordered = [] then Inl ValueError
         else
           let merged = concat (map snd ordered);
               total = int (length merged)
           in case py_divmod total group_count of
                Inl e \<Rightarrow> Inl e
              | Inr (sz, remainder) \<Rightarrow>
                  Inr (uniform_loop merged sz (nat group_count) remainder 0))"

subsection \<open>Mixed distributor\<close>

text \<open>One pass of \<^verbatim>\<open>for branch in list(pools.keys())\<close> over the entries of \<^verbatim>\<open>pools\<close> in
  order. Each key is visited once and only its own entry is changed, so the pass rebuilds
  the dictionary entry by entry: the front record is popped into the group when the queue
  has one, an emptied queue is deleted, and the pass stops (\<^verbatim>\<open>break\<close>) when the group
  has \<open>size\<close> records, leaving the entries not yet visited as they are.\<close>

fun fill_pass :: "int \<Rightarrow> 'r list \<Rightarrow> 'r buckets \<Rightarrow> 'r list \<times> 'r buckets" where
  "fill_pass sz g [] = (g, [])"
| "fill_pass sz g ((branch, q) # rest) =
     (let g1 = (if q \<noteq> [] then g @ [hd q] else g);
          q1 = (if q \<noteq> [] then tl q else q);
          kept = (if q1 = [] then [] else [(branch, q1)])
      in if int (length g1) = sz then (g1, kept @ rest)
         else (case fill_pass sz g1 rest of (g2, rest') \<Rightarrow> (g2, kept @ rest')))"

definition pool_measure :: "'r buckets \<Rightarrow> nat" where
  "pool_measure pools = length (concat (map snd pools)) + length pools"

lemma fill_pass_measure_le:
  "pool_measure (snd (fill_pass sz g pools)) \<le> pool_measure pools"
proof (induction pools arbitrary: g)
  case Nil
  then show ?case by simp
next
  case (Cons e rest)
  obtain b q where e: "e = (b, q)" by (cases e)
  have a: "pool_measure (snd (fill_pass sz g rest)) \<le> pool_measure rest"
    and b: "pool_measure (snd (fill_pass sz (g @ [hd q]) rest)) \<le> pool_measure rest"
    using Cons.IH by auto
  show ?case
  proof (cases q)
    case Nil
    with a e show ?thesis
      by (auto simp: pool_measure_def Let_def split: prod.splits)
  next
    case (Cons x q')
    with b e show ?thesis
      by (auto simp: pool_measure_def Let_def split: prod.splits)
  qed
qed

lemma fill_pass_measure_less:
  assumes "pools \<noteq> []"
  shows "pool_measure (snd (fill_pass sz g pools)) < pool_measure pools"
proof -
  obtain b q rest where p: "pools = (b, q) # rest"
    using assms by (cases pools) auto
  show ?thesis
  proof (cases q)
    case Nil
    with p fill_pass_measure_le [of sz g rest] show ?thesis
      by (auto simp: pool_measure_def Let_def split: prod.splits)
  next
    case (Cons x q')
    with p fill_pass_measure_le [of sz "g @ [x]" rest] show ?thesis
      by (auto simp: pool_measure_def Let_def split: prod.splits)
  qed
qed

text \<open>\<^verbatim>\<open>while len(groups[i]) < size and pools:\<close> around the pass. Every pass over a
  non-empty dictionary pops a record or deletes an entry, so the loop ends.\<close>

function fill_group :: "int \<Rightarrow> 'r list \<Rightarrow> 'r buckets \<Rightarrow> 'r list \<times> 'r buckets" where
  "fill_group sz g pools =
     (if int (length g) < sz \<and> pools \<noteq> []
      then (case fill_pass sz g pools of (g', pools') \<Rightarrow> fill_group sz g' pools')
      else (g, pools))"
  by pat_completeness auto
termination
proof (relation "measure (\<lambda>(sz, g, pools). pool_measure pools)")
  show "wf (measure (\<lambda>(sz, g, pools). pool_measure pools))" by simp
next
  fix sz :: int and g :: "'r list" and pools :: "'r buckets" and x y
  assume "(x, y) = fill_pass sz g pools" and "int (length g) < sz \<and> pools \<noteq> []"
  then show "((sz, x, y), sz, g, pools) \<in> measure (\<lambda>(sz, g, pools). pool_measure pools)"
    using fill_pass_measure_less [of pools sz g] by (simp add: snd_def split: prod.splits)
qed

declare fill_group.simps [simp del]

text \<open>\<^verbatim>\<open>for i in range(group_count)\<close>: group \<open>i\<close> starts empty and is filled from the pools
  the earlier groups left.\<close>

fun fill_groups :: "nat \<Rightarrow> int \<Rightarrow> 'r buckets \<Rightarrow> 'r list list \<times> 'r buckets" where
  "fill_groups 0 sz pools = ([], pools)"
| "fill_groups (Suc k) sz pools =
     (case fill_group sz [] pools of
        (g, pools') \<Rightarrow>
          (case fill_groups k sz pools' of (gs, pools'') \<Rightarrow> (g # gs, pools'')))"

text \<open>\<^verbatim>\<open>while leftovers: groups[idx % group_count].append(leftovers.pop(0)); idx += 1\<close>.
  The divisor is not zero here: \<^verbatim>\<open>divmod\<close> has already been evaluated.\<close>

fun round_robin :: "'r list \<Rightarrow> int \<Rightarrow> int \<Rightarrow> 'r list list \<Rightarrow> py_error + 'r list list" where
  "round_robin [] idx group_count groups = Inr groups"
| "round_robin (x # leftovers) idx group_count groups =
     (case append_at groups (idx mod group_count) x of
        Inl e \<Rightarrow> Inl e
      | Inr groups' \<Rightarrow> round_robin leftovers (idx + 1) group_count groups')"

definition mixed_distribution :: "'r buckets \<Rightarrow> int \<Rightarrow> py_error + 'r list list" where
  "mixed_distribution branch_data group_count =
     (let total_students = int (sum_list (map (\<lambda>x. length (snd x)) branch_data))
      in case py_divmod total_students group_count of
           Inl e \<Rightarrow> Inl e
         | Inr (sz, remainder) \<Rightarrow>
             (case fill_groups (nat group_count) sz branch_data of
                (groups, pools) \<Rightarrow>
                  round_robin (concat (map snd pools)) 0 group_count groups))"

subsection \<open>Summary reporter\<close>

text \<open>A cell of a pandas frame: a string, an integer, or the missing value. A frame is its
  column names and its rows, every row aligned to the columns. A folder is what
  \<^verbatim>\<open>os.listdir\<close> returns, in that order: for every file its name and the cells of its
  \<^verbatim>\<open>Roll\<close> column as text (\<^verbatim>\<open>df[roll_col].astype(str)\<close>).\<close>

datatype cell = Str string | Num int | NaN

record frame =
  columns :: "string list"
  records :: "cell list list"

type_synonym folder = "(string \<times> string list) list"

text \<open>\<^verbatim>\<open>f.endswith(".csv")\<close>.\<close>

definition ends_with :: "string \<Rightarrow> string \<Rightarrow> bool" where
  "ends_with suffix s = (length suffix \<le> length s \<and> drop (length s - length suffix) s = suffix)"

text \<open>The sort key of a file name: \<^verbatim>\<open>int(re.search(r'(\d+)', x).group(1))\<close>, the first run of
  digits read as a decimal number, and \<open>0\<close> when the name has no digit.\<close>

definition int_of_digits :: "string \<Rightarrow> nat" where
  "int_of_digits ds = foldl (\<lambda>acc d. 10 * acc + (of_char d - 48)) 0 ds"

definition file_number :: "string \<Rightarrow> nat" where
  "file_number name =
     (let found = takeWhile is_digit (dropWhile (\<lambda>c. \<not> is_digit c) name)
      in if found = [] then 0 else int_of_digits found)"

text \<open>\<^verbatim>\<open>sorted([f for f in os.listdir(folder) if f.endswith(".csv")], key=...)\<close>; the sort is
  stable.\<close>

definition list_csv :: "folder \<Rightarrow> folder" where
  "list_csv dir = sort_key (\<lambda>f. file_number (fst f)) (filter (\<lambda>f. ends_with ''.csv'' (fst f)) dir)"

text \<open>The pattern \<^verbatim>\<open>^(?:\d{4}([A-Za-z]{2})\d{2}|([A-Za-z]{2}))$\<close>. It is anchored at both ends;
  \<^verbatim>\<open>$\<close> also matches before one final newline. The result is the group that took part
  in the match (\<^verbatim>\<open>extracted[0].fillna(extracted[1])\<close>), or \<open>None\<close> for no match (the
  missing value).\<close>

definition strip_final_newline :: "string \<Rightarrow> string" where
  "strip_final_newline s = (if s \<noteq> [] \<and> last s = CHR 0x0A then butlast s else s)"

definition summary_match :: "string \<Rightarrow> string option" where
  "summary_match s =
     (let b = strip_final_newline s
      in if length b = 8
            \<and> list_all is_digit (take 4 b)
            \<and> list_all is_alpha (take 2 (drop 4 b))
            \<and> list_all is_digit (drop 6 b)
         then Some (take 2 (drop 4 b))
         else if length b = 2 \<and> list_all is_alpha b then Some b
         else None)"

text \<open>\<^verbatim>\<open>codes\<close>: the extracted codes, upper-cased; \<^verbatim>\<open>value_counts\<close> leaves the missing
  values out, so only the matched identifiers are kept.\<close>

definition extract_codes :: "string list \<Rightarrow> string list" where
  "extract_codes rolls = map upper (List.map_filter summary_match rolls)"

text \<open>\<^verbatim>\<open>codes.value_counts().to_dict()\<close>: every code with its number of occurrences. (The
  order of the keys has no effect: the columns are sorted below.)\<close>

definition value_counts :: "string list \<Rightarrow> (string \<times> nat) list" where
  "value_counts codes = map (\<lambda>c. (c, count_list codes c)) (remdups codes)"

text \<open>\<^verbatim>\<open>d[k] = v\<close> on a dictionary.\<close>

fun dict_set :: "'k \<Rightarrow> 'v \<Rightarrow> ('k \<times> 'v) list \<Rightarrow> ('k \<times> 'v) list" where
  "dict_set k v [] = [(k, v)]"
| "dict_set k v ((k', v') # rest) =
     (if k' = k then (k', v) # rest else (k', v') # dict_set k v rest)"

text \<open>\<^verbatim>\<open>f"G{idx}"\<close> needs the decimal digits of a number.\<close>

function str_nat :: "nat \<Rightarrow> string" where
  "str_nat n = (if n < 10 then [char_of (48 + n)] else str_nat (n div 10) @ [char_of (48 + n mod 10)])"
  by pat_completeness auto
termination
  by (relation "measure id") auto

declare str_nat.simps [simp del]

text \<open>The loop \<^verbatim>\<open>for idx, f in enumerate(files, start=1)\<close> that fills \<^verbatim>\<open>stats\<close>.\<close>

definition group_stats :: "string list list \<Rightarrow> (string \<times> (string \<times> nat) list) list" where
  "group_stats files =
     map (\<lambda>(idx, rolls).
            (''G'' @ str_nat idx, dict_set ''Total'' (length rolls) (value_counts (extract_codes rolls))))
         (enumerate 1 files)"

text \<open>\<^verbatim>\<open>read_stats\<close>. \<^verbatim>\<open>pd.DataFrame(stats).fillna(0).astype(int).T\<close> has one row for every
  group and one column for every key of any group's dictionary; a key a group does not have
  is \<open>0\<close> there.\<close>

definition read_stats :: "folder \<Rightarrow> frame" where
  "read_stats dir =
     (let stats = group_stats (map snd (list_csv dir))
      in if stats = [] then \<lparr>columns = [''Group'', ''Total''], records = []\<rparr>
         else
           let tab_columns = remdups (concat (map (\<lambda>g. map fst (snd g)) stats));
               cols = sort (filter (\<lambda>c. c \<noteq> ''Total'') tab_columns)
           in \<lparr>columns = ''Group'' # cols @ [''Total''],
               records = map (\<lambda>g. Str (fst g)
                                 # map (\<lambda>c. Num (case map_of (snd g) c of None \<Rightarrow> 0 | Some n \<Rightarrow> int n))
                                       (cols @ [''Total'']))
                             stats\<rparr>)"

text \<open>\<^verbatim>\<open>df.empty\<close>: one of the axes has length \<open>0\<close>.\<close>

definition frame_empty :: "frame \<Rightarrow> bool" where
  "frame_empty f = (columns f = [] \<or> records f = [])"

text \<open>The rows of a frame laid out for the columns \<open>cols\<close>: a column the frame does not have
  is filled.\<close>

definition align :: "cell \<Rightarrow> string list \<Rightarrow> frame \<Rightarrow> cell list list" where
  "align fill cols f =
     map (\<lambda>r. map (\<lambda>c. case map_of (zip (columns f) r) c of Some v \<Rightarrow> v | None \<Rightarrow> fill) cols)
         (records f)"

text \<open>\<^verbatim>\<open>df.reindex(columns=cols, fill_value=0)\<close>: the columns become \<open>cols\<close>; a column of
  the frame that is not in \<open>cols\<close> is dropped.\<close>

definition reindex :: "string list \<Rightarrow> frame \<Rightarrow> frame" where
  "reindex cols f = \<lparr>columns = cols, records = align (Num 0) cols f\<rparr>"

text \<open>\<^verbatim>\<open>pd.concat(frames, ignore_index=True)\<close>: the columns are the union of the frames'
  columns in the order of first appearance, the rows follow one another, and a column a
  frame does not have is the missing value in its rows.\<close>

fun first_seen :: "'a list \<Rightarrow> 'a list \<Rightarrow> 'a list" where
  "first_seen seen [] = seen"
| "first_seen seen (x # xs) = first_seen (if x \<in> set seen then seen else seen @ [x]) xs"

definition pd_concat :: "frame list \<Rightarrow> frame" where
  "pd_concat fs =
     (let cols = first_seen [] (concat (map columns fs))
      in \<lparr>columns = cols, records = concat (map (align NaN cols) fs)\<rparr>)"

text \<open>\<^verbatim>\<open>generate_summary\<close>; the result is the frame \<^verbatim>\<open>final\<close> written to \<^verbatim>\<open>summary.csv\<close>.\<close>

definition generate_summary :: "folder \<Rightarrow> folder \<Rightarrow> frame" where
  "generate_summary uniform mixed =
     (let uniform_df = read_stats uniform;
          mixed_df = read_stats mixed;
          cols = (if \<not> frame_empty uniform_df then columns uniform_df
                  else if \<not> frame_empty mixed_df then columns mixed_df
                  else [''Group'', ''Total'']);
          mixed_df' = reindex cols mixed_df;
          header_uniform = \<lparr>columns = cols,
                             records = [Str ''Uniform'' # replicate (length cols - 1) (Str '''')]\<rparr>;
          header_mixed = \<lparr>columns = cols,
                           records = [Str ''Mixed'' # replicate (length cols - 1) (Str '''')]\<rparr>;
          gap = \<lparr>columns = cols, records = [replicate (length cols) (Str '''')]\<rparr>
      in pd_concat [header_uniform, uniform_df, gap, header_mixed, mixed_df'])"

subsection \<open>Quantities the properties are stated with\<close>

text \<open>The total number of classified records of a bucket mapping:
  \<^verbatim>\<open>sum(len(v) for v in branch_data.values())\<close>.\<close>

definition total_records :: "'r buckets \<Rightarrow> nat" where
  "total_records branch_data = sum_list (map (\<lambda>x. length (snd x)) branch_data)"

text \<open>Where group \<open>i\<close> starts in the merged sequence when every group has \<open>s\<close> records
  and the first \<open>r\<close> groups one more.\<close>

definition slice_start :: "nat \<Rightarrow> nat \<Rightarrow> nat \<Rightarrow> nat" where
  "slice_start s r i = i * s + min i r"

text \<open>The ordering of the buckets in the words of the specification: the same buckets, by
  descending size, buckets of equal size in the order of the mapping.\<close>

definition size_ordered :: "'r buckets \<Rightarrow> 'r buckets \<Rightarrow> bool" where
  "size_ordered branch_data ordered \<longleftrightarrow>
     mset ordered = mset branch_data
     \<and> sorted (rev (map (\<lambda>x. length (snd x)) ordered))
     \<and> (\<forall>k. filter (\<lambda>x. length (snd x) = k) ordered = filter (\<lambda>x. length (snd x) = k) branch_data)"

text \<open>The branch code of a row: the captured letters, upper-cased
  (\<^verbatim>\<open>match.group(1).upper()\<close>), or \<open>None\<close> when the roll number does not match.\<close>

definition branch_of :: "row \<Rightarrow> string option" where
  "branch_of r = map_option upper (pattern_match (Roll r))"

text \<open>What the classifier has built after the rows \<open>xs\<close>: the keys are pairwise different, and
  the bucket of a code holds the rows with that code, in input order; a code no row has is
  not a key.\<close>

definition buckets_of :: "row buckets \<Rightarrow> row list \<Rightarrow> bool" where
  "buckets_of grouped xs \<longleftrightarrow>
     distinct (map fst grouped)
     \<and> (\<forall>code. map_of grouped code =
           (if filter (\<lambda>r. branch_of r = Some code) xs = [] then None
            else Some (filter (\<lambda>r. branch_of r = Some code) xs)))"

text \<open>The branch codes observed in a set of group files, sorted.\<close>

definition all_codes :: "string list list \<Rightarrow> string list" where
  "all_codes files = sort (remdups (concat (map extract_codes files)))"

text \<open>The branch columns of the combined table.\<close>

definition summary_branches :: "folder \<Rightarrow> folder \<Rightarrow> string list" where
  "summary_branches uniform mixed =
     (if map snd (list_csv uniform) \<noteq> [] then all_codes (map snd (list_csv uniform))
      else all_codes (map snd (list_csv mixed)))"

text \<open>The row of the group numbered \<open>fst g\<close> with the identifiers \<open>snd g\<close>, for the branch
  columns \<open>branches\<close>: the label, the number of identifiers of every branch, the number
  of identifiers.\<close>

definition data_row :: "string list \<Rightarrow> nat \<times> string list \<Rightarrow> cell list" where
  "data_row branches g =
     Str (''G'' @ str_nat (fst g))
     # map (\<lambda>c. Num (int (count_list (extract_codes (snd g)) c))) branches
     @ [Num (int (length (snd g)))]"

text \<open>A row's \<^verbatim>\<open>Total\<close> value, and the sum of its per-branch counts: the cells of all columns
  but \<^verbatim>\<open>Group\<close> and \<^verbatim>\<open>Total\<close>.\<close>

definition cell_int :: "cell \<Rightarrow> int" where
  "cell_int v = (case v of Num n \<Rightarrow> n | _ \<Rightarrow> 0)"

definition row_total :: "string list \<Rightarrow> cell list \<Rightarrow> int" where
  "row_total cols r = (case map_of (zip cols r) ''Total'' of Some v \<Rightarrow> cell_int v | None \<Rightarrow> 0)"

definition row_branch_sum :: "string list \<Rightarrow> cell list \<Rightarrow> int" where
  "row_branch_sum cols r =
     sum_list (map (\<lambda>cv. cell_int (snd cv))
                   (filter (\<lambda>cv. fst cv \<noteq> ''Group'' \<and> fst cv \<noteq> ''Total'') (zip cols r)))"

text \<open>The identifiers of a group file that match the summary pattern with a branch code
  among \<open>branches\<close>.\<close>

definition tallied :: "string list \<Rightarrow> string list \<Rightarrow> string list" where
  "tallied branches rolls =
     filter (\<lambda>s. case summary_match s of None \<Rightarrow> False | Some c \<Rightarrow> upper c \<in> set branches) rolls"

subsection \<open>Example inputs\<close>

definition ex_buckets :: "nat buckets" where
  "ex_buckets = [(''EC'', [1, 2]), (''CS'', [3, 4, 5]), (''ME'', [6, 7])]"

text \<open>A table with a lower-case code, a roll number with five leading digits, and a roll
  number that continues after the eighth character.\<close>

definition ex_table :: "row list" where
  "ex_table = [\<lparr>Roll = ''2023cs01'', cells = [''Asha'']\<rparr>,
               \<lparr>Roll = ''12345CS01'', cells = [''Bela'']\<rparr>,
               \<lparr>Roll = ''2023EC01'', cells = [''Chen'']\<rparr>,
               \<lparr>Roll = ''2023CS02x'', cells = [''Dev'']\<rparr>]"

text \<open>The worked example of the specification: six \<^verbatim>\<open>CS\<close> rows, then four \<^verbatim>\<open>EC\<close> rows.\<close>

definition ex_row :: "string \<Rightarrow> row" where
  "ex_row s = \<lparr>Roll = s, cells = []\<rparr>"

definition ex_df :: "row list" where
  "ex_df = map ex_row
     [''2023CS01'', ''2023CS02'', ''2023CS03'', ''2023CS04'', ''2023CS05'', ''2023CS06'',
      ''2023EC01'', ''2023EC02'', ''2023EC03'', ''2023EC04'']"

text \<open>Two folders of group files: the uniform folder holds an identifier with a three-digit
  serial, the mixed folder a branch the uniform folder does not have.\<close>

definition ex_uniform_dir :: folder where
  "ex_uniform_dir = [(''group_2.csv'', [''2023EC01'']), (''group_1.csv'', [''2023CS01'', ''2023CS011''])]"

definition ex_mixed_dir :: folder where
  "ex_mixed_dir = [(''group_1.csv'', [''2023CS01'', ''2023ME01'']), (''group_2.csv'', [''2023ec02''])]"

section \<open>Uniform distributor: the slices\<close>

lemma length_concat_snd: "length (concat (map snd bd)) = total_records bd"
  by (induction bd) (auto simp: total_records_def)

lemma mset_sorted_reverse: "mset (sorted_reverse f xs) = mset xs"
  by (simp add: sorted_reverse_def)

lemma length_sorted_reverse: "length (sorted_reverse f xs) = length xs"
  by (simp add: sorted_reverse_def)

lemma sorted_reverse_eq_Nil: "sorted_reverse f xs = [] \<longleftrightarrow> xs = []"
  using length_sorted_reverse [of f xs] by (metis length_0_conv)

lemma total_records_sorted_reverse: "total_records (sorted_reverse f bd) = total_records bd"
proof -
  have "mset (map (\<lambda>x. length (snd x)) (sorted_reverse f bd)) = mset (map (\<lambda>x. length (snd x)) bd)"
    by (simp add: mset_sorted_reverse)
  then have "sum_mset (mset (map (\<lambda>x. length (snd x)) (sorted_reverse f bd)))
      = sum_mset (mset (map (\<lambda>x. length (snd x)) bd))"
    by (rule arg_cong)
  then show ?thesis
    unfolding total_records_def by (simp only: sum_mset_sum_list)
qed

lemma py_slice_nonneg:
  assumes "0 \<le> s" and "s \<le> e"
  shows "py_slice xs s e = take (nat e - nat s) (drop (nat s) xs)"
proof -
  have s: "slice_bound (length xs) s = min (length xs) (nat s)"
    and e: "slice_bound (length xs) e = min (length xs) (nat e)"
    using assms by (simp_all add: slice_bound_def)
  have le: "nat s \<le> nat e" using assms by simp
  show ?thesis
  proof (cases "nat s \<le> length xs")
    case True
    then have "take (min (length xs) (nat e) - nat s) (drop (nat s) xs)
             = take (nat e - nat s) (drop (nat s) xs)"
      by (cases "nat e \<le> length xs") (simp_all add: min_def)
    with True show ?thesis by (simp add: py_slice_def s e Let_def min_def)
  next
    case False
    then show ?thesis by (simp add: py_slice_def s e Let_def)
  qed
qed

lemma uniform_loop_length: "length (uniform_loop merged sz k r p) = k"
  by (induction k arbitrary: r p) (simp_all add: Let_def)

lemma uniform_loop_Suc_nat:
  "uniform_loop merged (int s) (Suc k) (int r) (int p) =
     take (s + (if 0 < r then 1 else 0)) (drop p merged)
     # uniform_loop merged (int s) k (int (r - 1)) (int (p + s + (if 0 < r then 1 else 0)))"
proof (cases r)
  case 0
  have "py_slice merged (int p) (int p + int s) = take s (drop p merged)"
    by (subst py_slice_nonneg) (simp_all add: nat_add_distrib)
  with 0 show ?thesis by (simp add: Let_def)
next
  case (Suc r')
  have "py_slice merged (int p) (int p + int s + 1) = take (Suc s) (drop p merged)"
    by (subst py_slice_nonneg) (simp_all add: nat_add_distrib)
  with Suc show ?thesis by (simp add: Let_def add.commute add.left_commute)
qed

lemma uniform_loop_nth_nat:
  "i < k \<Longrightarrow> uniform_loop merged (int s) k (int r) (int p) ! i =
         take (s + (if i < r then 1 else 0)) (drop (p + i * s + min i r) merged)"
proof (induction k arbitrary: r p i)
  case 0
  then show ?case by simp
next
  case (Suc k)
  show ?case
  proof (cases i)
    case 0
    then show ?thesis by (simp only: uniform_loop_Suc_nat) simp
  next
    case (Suc j)
    have j: "j < k" using Suc Suc.prems by simp
    have off: "p + s + (if 0 < r then 1 else 0) + j * s + min j (r - 1) = p + i * s + min i r"
      using Suc by (cases r) simp_all
    have cnt: "(j < r - 1) = (i < r)"
      using Suc by (cases r) simp_all
    show ?thesis
      using Suc.IH [OF j, of "r - 1" "p + s + (if 0 < r then 1 else 0)"] Suc
      by (simp only: uniform_loop_Suc_nat nth_Cons_Suc off cnt)
  qed
qed

lemma uniform_loop_concat_nat:
  "concat (uniform_loop merged (int s) k (int r) (int p)) =
         take (k * s + min k r) (drop p merged)"
proof (induction k arbitrary: r p)
  case 0
  then show ?case by simp
next
  case (Suc k)
  let ?d = "s + (if 0 < r then 1 else 0)"
  have len: "Suc k * s + min (Suc k) r = ?d + (k * s + min k (r - 1))"
    by (cases r) simp_all
  have "concat (uniform_loop merged (int s) (Suc k) (int r) (int p)) =
        take ?d (drop p merged) @ take (k * s + min k (r - 1)) (drop ?d (drop p merged))"
    by (simp only: uniform_loop_Suc_nat concat.simps Suc.IH drop_drop) (simp add: ac_simps)
  also have "\<dots> = take (?d + (k * s + min k (r - 1))) (drop p merged)"
    by (simp only: take_add)
  finally show ?case by (simp only: len)
qed

lemma size_ordered_sorted_reverse:
  "size_ordered bd (sorted_reverse (\<lambda>x. length (snd x)) bd)"
proof -
  let ?f = "\<lambda>x::string \<times> 'a list. length (snd x)"
  have a: "mset (sorted_reverse ?f bd) = mset bd" by (rule mset_sorted_reverse)
  have "sorted (map ?f (sort_key ?f (rev bd)))" by (rule sorted_sort_key)
  then have b: "sorted (rev (map ?f (sorted_reverse ?f bd)))"
    by (simp add: sorted_reverse_def rev_map)
  have c: "filter (\<lambda>x. ?f x = k) (sorted_reverse ?f bd) = filter (\<lambda>x. ?f x = k) bd" for k
  proof -
    have "filter (\<lambda>x. ?f x = k) (sorted_reverse ?f bd)
        = rev (filter (\<lambda>x. ?f x = k) (sort_key ?f (rev bd)))"
      by (simp add: sorted_reverse_def rev_filter)
    also have "\<dots> = rev (filter (\<lambda>x. ?f x = k) (rev bd))"
      by (simp only: sort_key_stable)
    also have "\<dots> = filter (\<lambda>x. ?f x = k) bd"
      by (simp add: rev_filter)
    finally show ?thesis .
  qed
  show ?thesis unfolding size_ordered_def using a b c by blast
qed

lemma uniform_distribution_eq:
  assumes "bd \<noteq> []" and "1 \<le> N"
  shows "uniform_distribution bd N =
         Inr (uniform_loop (concat (map snd (sorted_reverse (\<lambda>x. length (snd x)) bd)))
                (int (total_records bd div nat N)) (nat N) (int (total_records bd mod nat N)) (int 0))"
proof -
  let ?ord = "sorted_reverse (\<lambda>x. length (snd x)) bd"
  have ne: "?ord \<noteq> []" using assms(1) by (simp add: sorted_reverse_eq_Nil)
  have len: "length (concat (map snd ?ord)) = total_records bd"
    by (simp only: length_concat_snd total_records_sorted_reverse)
  have N: "N = int (nat N)" using assms(2) by simp
  have d: "int (total_records bd) div N = int (total_records bd div nat N)"
    by (subst N) (simp only: zdiv_int)
  have m: "int (total_records bd) mod N = int (total_records bd mod nat N)"
    by (subst N) (simp only: zmod_int)
  have dm: "py_divmod (int (total_records bd)) N
             = Inr (int (total_records bd div nat N), int (total_records bd mod nat N))"
    using assms(2) by (simp add: py_divmod_def d m)
  show ?thesis
    using ne by (simp add: uniform_distribution_def Let_def len dm)
qed

lemma slice_start_le:
  assumes "i \<le> n" and "0 < n"
  shows "slice_start (t div n) (t mod n) i \<le> t"
proof -
  have "i * (t div n) \<le> n * (t div n)" using assms(1) by (rule mult_le_mono1)
  moreover have "min i (t mod n) \<le> t mod n" by simp
  moreover have "n * (t div n) + t mod n = t" by simp
  ultimately show ?thesis unfolding slice_start_def by linarith
qed

lemma slice_start_Suc: "slice_start s r (Suc i) = slice_start s r i + s + (if i < r then 1 else 0)"
  by (simp add: slice_start_def min_def)

lemma slice_start_total: "0 < n \<Longrightarrow> slice_start (t div n) (t mod n) n = t"
proof -
  assume "0 < n"
  then have "t mod n < n" by simp
  then have "min n (t mod n) = t mod n" by simp
  then show ?thesis by (simp add: slice_start_def)
qed

lemma uniform_group_length:
  assumes "i < n" and "length merged = t"
  shows "length (take (t div n + (if i < t mod n then 1 else 0))
                  (drop (slice_start (t div n) (t mod n) i) merged)) =
         t div n + (if i < t mod n then 1 else 0)"
proof -
  have "slice_start (t div n) (t mod n) (Suc i) \<le> t"
    using assms(1) by (intro slice_start_le) simp_all
  then have "slice_start (t div n) (t mod n) i + (t div n + (if i < t mod n then 1 else 0)) \<le> t"
    by (simp only: slice_start_Suc add.assoc)
  then show ?thesis using assms(2) by simp
qed

lemma uniform_loop_groups:
  assumes "0 < n" and "length merged = t"
  defines "gs \<equiv> uniform_loop merged (int (t div n)) n (int (t mod n)) (int 0)"
  shows "length gs = n"
    and "\<And>i. i < n \<Longrightarrow> gs ! i = take (t div n + (if i < t mod n then 1 else 0))
                                   (drop (slice_start (t div n) (t mod n) i) merged)"
    and "\<And>i. i < n \<Longrightarrow> length (gs ! i) = t div n + (if i < t mod n then 1 else 0)"
    and "concat gs = merged"
proof -
  show "length gs = n" by (simp add: gs_def uniform_loop_length)
  show nth: "gs ! i = take (t div n + (if i < t mod n then 1 else 0))
                     (drop (slice_start (t div n) (t mod n) i) merged)" if "i < n" for i
    using uniform_loop_nth_nat [OF that, of merged "t div n" "t mod n" 0]
    by (simp add: gs_def slice_start_def)
  show "length (gs ! i) = t div n + (if i < t mod n then 1 else 0)" if "i < n" for i
    using that assms(2) by (simp only: nth uniform_group_length)
  have "concat gs = take (slice_start (t div n) (t mod n) n) (drop 0 merged)"
    unfolding gs_def slice_start_def by (rule uniform_loop_concat_nat)
  then show "concat gs = merged"
    using assms(1,2) by (simp add: slice_start_total)
qed

text \<open>
  Claim C2. For a non-empty bucket mapping with \<open>T\<close> classified records and a group count
  \<open>N \<ge> 1\<close>, with \<^verbatim>\<open>size, remainder = divmod(T, N)\<close>, the uniform distributor returns
  \<open>N\<close> groups; the first \<^verbatim>\<open>remainder\<close> groups have \<^verbatim>\<open>size + 1\<close> records and the others
  \<^verbatim>\<open>size\<close>; the group sizes add up to \<open>T\<close>, and any two group sizes differ by at most one.
\<close>

theorem uniform_group_sizes:
  assumes "branch_data \<noteq> []" and "1 \<le> group_count"
    and "py_divmod (int (total_records branch_data)) group_count = Inr (sz, remainder)"
  shows "\<exists>groups. uniform_distribution branch_data group_count = Inr groups
      \<and> length groups = nat group_count
      \<and> (\<forall>i < nat group_count.
            int (length (groups ! i)) = (if int i < remainder then sz + 1 else sz))
      \<and> sum_list (map length groups) = total_records branch_data
      \<and> (\<forall>i < nat group_count. \<forall>j < nat group_count.
            length (groups ! i) \<le> length (groups ! j) + 1)"
proof -
  define n where "n = nat group_count"
  define t where "t = total_records branch_data"
  define merged where "merged = concat (map snd (sorted_reverse (\<lambda>x. length (snd x)) branch_data))"
  define gs where "gs = uniform_loop merged (int (t div n)) n (int (t mod n)) (int 0)"
  have n: "0 < n" and N: "group_count = int n" using assms(2) by (simp_all add: n_def)
  have len: "length merged = t"
    by (simp only: merged_def t_def length_concat_snd total_records_sorted_reverse)
  have sz: "sz = int (t div n)" and rem: "remainder = int (t mod n)"
    using assms(3) n unfolding N t_def [symmetric]
    by (simp_all add: py_divmod_def zdiv_int zmod_int)
  note g = uniform_loop_groups [OF n len, folded gs_def]
  have run: "uniform_distribution branch_data group_count = Inr gs"
    using uniform_distribution_eq [OF assms(1,2)]
    by (simp only: gs_def merged_def t_def n_def)
  have sizes: "int (length (gs ! i)) = (if int i < remainder then sz + 1 else sz)" if "i < n" for i
    using g(3) [OF that] by (simp add: sz rem)
  have total: "sum_list (map length gs) = t"
    using g(4) len by (simp only: length_concat [symmetric])
  have near: "length (gs ! i) \<le> length (gs ! j) + 1" if "i < n" "j < n" for i j
    using g(3) [OF that(1)] g(3) [OF that(2)] by simp
  show ?thesis
    using run g(1) sizes total near unfolding n_def t_def by blast
qed

theorem uniform_group_sizes_witness:
  "ex_buckets \<noteq> [] \<and> (1::int) \<le> 3
   \<and> py_divmod (int (total_records ex_buckets)) 3 = Inr (2, 1)
   \<and> (\<exists>groups. uniform_distribution ex_buckets 3 = Inr groups
      \<and> length groups = nat 3
      \<and> (\<forall>i < nat 3. int (length (groups ! i)) = (if int i < 1 then 2 + 1 else 2))
      \<and> sum_list (map length groups) = total_records ex_buckets
      \<and> (\<forall>i < nat 3. \<forall>j < nat 3. length (groups ! i) \<le> length (groups ! j) + 1))"
proof -
  have h1: "ex_buckets \<noteq> []" by (simp add: ex_buckets_def)
  have h2: "(1::int) \<le> 3" by simp
  have h3: "py_divmod (int (total_records ex_buckets)) 3 = Inr (2, 1)"
    by (simp add: py_divmod_def total_records_def ex_buckets_def)
  from uniform_group_sizes [OF h1 h2 h3] h1 h2 h3 show ?thesis by blast
qed

lemma size_ordered_unique:
  assumes "size_ordered bd ordered"
  shows "ordered = sorted_reverse (\<lambda>x. length (snd x)) bd"
proof -
  let ?f = "\<lambda>x::string \<times> 'a list. length (snd x)"
  have a: "mset (rev ordered) = mset (rev bd)"
    using assms by (simp add: size_ordered_def)
  have c: "filter (\<lambda>x. ?f k = ?f x) (rev ordered) = filter (\<lambda>x. ?f k = ?f x) (rev bd)" for k
  proof -
    have "filter (\<lambda>x. ?f x = ?f k) ordered = filter (\<lambda>x. ?f x = ?f k) bd"
      using assms unfolding size_ordered_def by blast
    then have "rev (filter (\<lambda>x. ?f x = ?f k) ordered) = rev (filter (\<lambda>x. ?f x = ?f k) bd)"
      by (rule arg_cong)
    then show ?thesis by (simp only: rev_filter eq_commute [of "?f k"])
  qed
  have b: "sorted (map ?f (rev ordered))"
    using assms by (simp add: size_ordered_def rev_map)
  have "sort_key ?f (rev bd) = rev ordered"
    using a c b by (rule properties_for_sort_key)
  then show ?thesis by (simp add: sorted_reverse_def)
qed

text \<open>
  Claim C4. For a non-empty bucket mapping and a group count \<open>N \<ge> 1\<close>, concatenating the
  \<open>N\<close> groups in index order gives exactly the records of the buckets ordered by descending
  size (equal sizes in the order of the mapping) and concatenated; group \<open>i\<close> is the
  slice from boundary \<open>i\<close> to boundary \<open>i + 1\<close> of that sequence, the boundaries ascend,
  the first is \<open>0\<close> and the last is the length of the sequence.
\<close>

theorem uniform_round_trip:
  assumes "branch_data \<noteq> []" and "1 \<le> group_count"
    and "size_ordered branch_data ordered"
  shows "\<exists>groups s r.
      uniform_distribution branch_data group_count = Inr groups
      \<and> concat groups = concat (map snd ordered)
      \<and> length groups = nat group_count
      \<and> slice_start s r 0 = 0
      \<and> slice_start s r (nat group_count) = length (concat (map snd ordered))
      \<and> (\<forall>i < nat group_count.
            slice_start s r i \<le> slice_start s r (Suc i)
            \<and> groups ! i = take (slice_start s r (Suc i) - slice_start s r i)
                               (drop (slice_start s r i) (concat (map snd ordered))))"
proof -
  define n where "n = nat group_count"
  define t where "t = total_records branch_data"
  define merged where "merged = concat (map snd ordered)"
  define gs where "gs = uniform_loop merged (int (t div n)) n (int (t mod n)) (int 0)"
  have ordered: "ordered = sorted_reverse (\<lambda>x. length (snd x)) branch_data"
    using assms(3) by (rule size_ordered_unique)
  have n: "0 < n" using assms(2) by (simp add: n_def)
  have len: "length merged = t"
    by (simp only: merged_def ordered t_def length_concat_snd total_records_sorted_reverse)
  note g = uniform_loop_groups [OF n len, folded gs_def]
  have run: "uniform_distribution branch_data group_count = Inr gs"
    using uniform_distribution_eq [OF assms(1,2)]
    by (simp only: gs_def merged_def ordered t_def n_def)
  have s0: "slice_start (t div n) (t mod n) 0 = 0" by (simp add: slice_start_def)
  have sn: "slice_start (t div n) (t mod n) n = length merged"
    using n len by (simp add: slice_start_total)
  have sl: "slice_start (t div n) (t mod n) i \<le> slice_start (t div n) (t mod n) (Suc i)
       \<and> gs ! i = take (slice_start (t div n) (t mod n) (Suc i) - slice_start (t div n) (t mod n) i)
                        (drop (slice_start (t div n) (t mod n) i) merged)" if "i < n" for i
    using g(2) [OF that] by (simp add: slice_start_Suc)
  show ?thesis
    using run g(4) g(1) s0 sn sl unfolding n_def merged_def by blast
qed

theorem uniform_round_trip_witness:
  "ex_buckets \<noteq> [] \<and> (1::int) \<le> 3
   \<and> size_ordered ex_buckets [(''CS'', [3, 4, 5]), (''EC'', [1, 2]), (''ME'', [6, 7])]
   \<and> (\<exists>groups s r.
      uniform_distribution ex_buckets 3 = Inr groups
      \<and> concat groups = concat (map snd [(''CS'', [3, 4, 5]), (''EC'', [1, 2]), (''ME'', [6, 7::nat])])
      \<and> length groups = nat 3
      \<and> slice_start s r 0 = 0
      \<and> slice_start s r (nat 3)
          = length (concat (map snd [(''CS'', [3, 4, 5]), (''EC'', [1, 2]), (''ME'', [6, 7::nat])]))
      \<and> (\<forall>i < nat 3.
            slice_start s r i \<le> slice_start s r (Suc i)
            \<and> groups ! i = take (slice_start s r (Suc i) - slice_start s r i)
                 (drop (slice_start s r i)
                    (concat (map snd [(''CS'', [3, 4, 5]), (''EC'', [1, 2]), (''ME'', [6, 7::nat])])))))"
proof -
  have h1: "ex_buckets \<noteq> []" by (simp add: ex_buckets_def)
  have h2: "(1::int) \<le> 3" by simp
  have "sorted_reverse (\<lambda>x. length (snd x)) ex_buckets
        = [(''CS'', [3, 4, 5]), (''EC'', [1, 2]), (''ME'', [6, 7])]"
    by (simp add: sorted_reverse_def ex_buckets_def)
  then have h3: "size_ordered ex_buckets [(''CS'', [3, 4, 5]), (''EC'', [1, 2]), (''ME'', [6, 7])]"
    using size_ordered_sorted_reverse [of ex_buckets] by simp
  from uniform_round_trip [OF h1 h2 h3] h1 h2 h3 show ?thesis by blast
qed

text \<open>
  More groups than records, on a mapping that has a bucket: with \<open>T\<close> classified records
  and a group count \<open>N > T\<close> the uniform distributor returns \<open>N\<close> groups without an error;
  the first \<open>T\<close> groups hold one record each and every group from index \<open>T\<close> on is empty.
\<close>

lemma uniform_more_groups_than_records:
  assumes "branch_data \<noteq> []" and "int (total_records branch_data) < group_count"
  shows "\<exists>groups. uniform_distribution branch_data group_count = Inr groups
      \<and> length groups = nat group_count
      \<and> (\<forall>i < nat group_count. length (groups ! i) = (if i < total_records branch_data then 1 else 0))
      \<and> (\<forall>i. total_records branch_data \<le> i \<and> i < nat group_count \<longrightarrow> groups ! i = [])"
proof -
  define n where "n = nat group_count"
  define t where "t = total_records branch_data"
  define merged where "merged = concat (map snd (sorted_reverse (\<lambda>x. length (snd x)) branch_data))"
  define gs where "gs = uniform_loop merged (int (t div n)) n (int (t mod n)) (int 0)"
  have tn: "t < n" using assms(2) by (simp add: n_def t_def)
  then have n: "0 < n" by simp
  have N: "1 \<le> group_count" using assms(2) by linarith
  have d: "t div n = 0" and m: "t mod n = t" using tn by simp_all
  have len: "length merged = t"
    by (simp only: merged_def t_def length_concat_snd total_records_sorted_reverse)
  note g = uniform_loop_groups [OF n len, folded gs_def]
  have run: "uniform_distribution branch_data group_count = Inr gs"
    using uniform_distribution_eq [OF assms(1) N]
    by (simp only: gs_def merged_def t_def n_def)
  have sizes: "length (gs ! i) = (if i < t then 1 else 0)" if "i < n" for i
    using g(3) [OF that] by (simp add: d m)
  have empty: "gs ! i = []" if "t \<le> i \<and> i < n" for i
    using sizes [of i] that by simp
  show ?thesis
    using run g(1) sizes empty unfolding n_def t_def by blast
qed

lemma uniform_more_groups_than_records_witness:
  "ex_buckets \<noteq> [] \<and> int (total_records ex_buckets) < 9
   \<and> (\<exists>groups. uniform_distribution ex_buckets 9 = Inr groups
      \<and> length groups = nat 9
      \<and> (\<forall>i < nat 9. length (groups ! i) = (if i < total_records ex_buckets then 1 else 0))
      \<and> (\<forall>i. total_records ex_buckets \<le> i \<and> i < nat 9 \<longrightarrow> groups ! i = []))"
proof -
  have h1: "ex_buckets \<noteq> []" by (simp add: ex_buckets_def)
  have h2: "int (total_records ex_buckets) < 9" by (simp add: total_records_def ex_buckets_def)
  from uniform_more_groups_than_records [OF h1 h2] h1 h2 show ?thesis by blast
qed

text \<open>
  Claim C6. For every bucket mapping with \<open>T\<close> classified records and every group count
  \<open>N > T\<close> the uniform distributor is to succeed and to write \<open>N\<close> groups, the groups after
  the first \<open>T\<close> empty. The code does not on the empty mapping, which the classifier
  returns for a table without a valid roll number: there \<open>T = 0\<close>, every \<open>N \<ge> 1\<close> is larger,
  and \<^verbatim>\<open>pd.concat\<close> receives no frame and raises. The mixed distributor writes its empty
  groups on the same input, and the uniform distributor itself writes empty groups for a
  mapping whose only bucket is empty.
\<close>

theorem uniform_empty_mapping_raises:
  "split_by_branch [ex_row ''CS-2023-01''] = ([], [ex_row ''CS-2023-01''])
   \<and> int (total_records ([] :: row buckets)) < 3
   \<and> uniform_distribution ([] :: row buckets) 3 = Inl ValueError
   \<and> mixed_distribution ([] :: row buckets) 3 = Inr [[], [], []]
   \<and> uniform_distribution [(''CS'', [] :: row list)] 3 = Inr [[], [], []]"
proof -
  have a: "split_by_branch [ex_row ''CS-2023-01''] = ([], [ex_row ''CS-2023-01''])"
    by code_simp
  have b: "int (total_records ([] :: row buckets)) < 3"
    by (simp add: total_records_def)
  have c: "uniform_distribution ([] :: row buckets) 3 = Inl ValueError"
    by (simp add: uniform_distribution_def sorted_reverse_def)
  have d: "mixed_distribution ([] :: row buckets) 3 = Inr [[], [], []]"
    by code_simp
  have e: "uniform_distribution [(''CS'', [] :: row list)] 3 = Inr [[], [], []]"
    by code_simp
  show ?thesis using a b c d e by (intro conjI)
qed

section \<open>Mixed distributor: fill phase and round robin\<close>

lemma fill_pass_Cons_Nil:
  "fill_pass sz g ((b, []) # rest) =
     (if int (length g) = sz then (g, rest) else fill_pass sz g rest)"
  by (simp add: Let_def split: prod.splits)

lemma fill_pass_Cons_Cons:
  "fill_pass sz g ((b, x # q) # rest) =
     (let kept = (if q = [] then [] else [(b, q)])
      in if int (length g) + 1 = sz then (g @ [x], kept @ rest)
         else (fst (fill_pass sz (g @ [x]) rest), kept @ snd (fill_pass sz (g @ [x]) rest)))"
  by (simp add: Let_def split: prod.splits)

lemma fill_pass_mset:
  "mset (fst (fill_pass sz g pools)) + mset (concat (map snd (snd (fill_pass sz g pools))))
   = mset g + mset (concat (map snd pools))"
proof (induction pools arbitrary: g)
  case Nil
  then show ?case by simp
next
  case (Cons e rest)
  obtain b q where e: "e = (b, q)" by (cases e)
  show ?case
  proof (cases q)
    case Nil
    then show ?thesis
      unfolding e using Cons.IH [of g] by (simp only: fill_pass_Cons_Nil) simp
  next
    case (Cons x q')
    then show ?thesis
      unfolding e using Cons.IH [of "g @ [x]"]
      by (simp only: fill_pass_Cons_Cons) (simp add: Let_def)
  qed
qed

lemma fill_pass_length_le:
  "int (length g) < sz \<Longrightarrow> int (length (fst (fill_pass sz g pools))) \<le> sz"
proof (induction pools arbitrary: g)
  case Nil
  then show ?case by simp
next
  case (Cons e rest)
  obtain b q where e: "e = (b, q)" by (cases e)
  show ?case
  proof (cases q)
    case Nil
    then show ?thesis
      unfolding e using Cons.IH [of g] Cons.prems by (simp only: fill_pass_Cons_Nil) simp
  next
    case (Cons x q')
    show ?thesis
    proof (cases "int (length g) + 1 = sz")
      case True
      then show ?thesis unfolding e Cons by (simp only: fill_pass_Cons_Cons) (simp add: Let_def)
    next
      case False
      then have "int (length (g @ [x])) < sz" using Cons.prems by simp
      then have "int (length (fst (fill_pass sz (g @ [x]) rest))) \<le> sz" by (rule Cons.IH)
      with False show ?thesis unfolding e Cons by (simp only: fill_pass_Cons_Cons) (simp add: Let_def)
    qed
  qed
qed

lemma fill_group_mset:
  "mset (fst (fill_group sz g pools)) + mset (concat (map snd (snd (fill_group sz g pools))))
   = mset g + mset (concat (map snd pools))"
proof (induction sz g pools rule: fill_group.induct)
  case (1 sz g pools)
  show ?case
  proof (cases "int (length g) < sz \<and> pools \<noteq> []")
    case True
    obtain g' pools' where fp: "fill_pass sz g pools = (g', pools')" by (cases "fill_pass sz g pools")
    have "mset (fst (fill_group sz g' pools')) + mset (concat (map snd (snd (fill_group sz g' pools'))))
          = mset g' + mset (concat (map snd pools'))"
      using "1.IH" [OF True fp [symmetric]] .
    also have "\<dots> = mset g + mset (concat (map snd pools))"
      using fill_pass_mset [of sz g pools] by (simp add: fp)
    finally show ?thesis
      using True fp by (subst (1 2) fill_group.simps) simp
  next
    case False
    then show ?thesis by (subst (1 2) fill_group.simps) auto
  qed
qed

lemma fill_group_exit:
  "int (length g) \<le> sz \<Longrightarrow>
   int (length (fst (fill_group sz g pools))) \<le> sz
   \<and> (int (length (fst (fill_group sz g pools))) = sz \<or> snd (fill_group sz g pools) = [])"
proof (induction sz g pools rule: fill_group.induct)
  case (1 sz g pools)
  show ?case
  proof (cases "int (length g) < sz \<and> pools \<noteq> []")
    case True
    obtain g' pools' where fp: "fill_pass sz g pools = (g', pools')" by (cases "fill_pass sz g pools")
    have "int (length g') \<le> sz"
      using fill_pass_length_le [of g sz pools] True by (simp add: fp)
    then have "int (length (fst (fill_group sz g' pools'))) \<le> sz
      \<and> (int (length (fst (fill_group sz g' pools'))) = sz \<or> snd (fill_group sz g' pools') = [])"
      by (rule "1.IH" [OF True fp [symmetric]])
    then show ?thesis
      using True fp by (subst (1 2 3) fill_group.simps) simp
  next
    case False
    then show ?thesis using "1.prems" by (subst (1 2 3) fill_group.simps) auto
  qed
qed

lemma fill_group_length:
  assumes "0 \<le> sz" and "sz \<le> int (length (concat (map snd pools)))"
  shows "int (length (fst (fill_group sz [] pools))) = sz"
    and "int (length (concat (map snd (snd (fill_group sz [] pools)))))
         = int (length (concat (map snd pools))) - sz"
proof -
  let ?g = "fst (fill_group sz [] pools)" and ?p = "snd (fill_group sz [] pools)"
  have ex: "int (length ?g) \<le> sz \<and> (int (length ?g) = sz \<or> ?p = [])"
    using assms(1) by (intro fill_group_exit) simp
  have "size (mset ?g + mset (concat (map snd ?p))) = size (mset ([]::'a list) + mset (concat (map snd pools)))"
    by (simp only: fill_group_mset)
  then have sum: "length ?g + length (concat (map snd ?p)) = length (concat (map snd pools))"
    by simp
  show g: "int (length ?g) = sz"
  proof (cases "?p = []")
    case True
    with sum have "length ?g = length (concat (map snd pools))" by simp
    with ex assms(2) show ?thesis by linarith
  next
    case False
    with ex show ?thesis by blast
  qed
  show "int (length (concat (map snd ?p))) = int (length (concat (map snd pools))) - sz"
    using sum g by linarith
qed

lemma fill_groups_length: "length (fst (fill_groups k sz pools)) = k"
proof (induction k arbitrary: pools)
  case 0
  then show ?case by simp
next
  case (Suc k)
  obtain g p1 where fg: "fill_group sz [] pools = (g, p1)" by (cases "fill_group sz [] pools")
  obtain gs p2 where fgs: "fill_groups k sz p1 = (gs, p2)" by (cases "fill_groups k sz p1")
  show ?case using Suc.IH [of p1] by (simp add: fg fgs)
qed

lemma fill_groups_mset:
  "mset (concat (fst (fill_groups k sz pools)))
   + mset (concat (map snd (snd (fill_groups k sz pools))))
   = mset (concat (map snd pools))"
proof (induction k arbitrary: pools)
  case 0
  then show ?case by simp
next
  case (Suc k)
  obtain g p1 where fg: "fill_group sz [] pools = (g, p1)" by (cases "fill_group sz [] pools")
  obtain gs p2 where fgs: "fill_groups k sz p1 = (gs, p2)" by (cases "fill_groups k sz p1")
  have a: "mset g + mset (concat (map snd p1)) = mset (concat (map snd pools))"
    using fill_group_mset [of sz "[]" pools] by (simp add: fg)
  have b: "mset (concat gs) + mset (concat (map snd p2)) = mset (concat (map snd p1))"
    using Suc.IH [of p1] by (simp add: fgs)
  show ?case using a b by (simp add: fg fgs ac_simps)
qed

lemma fill_groups_sizes:
  assumes "0 \<le> sz" and "int k * sz \<le> int (length (concat (map snd pools)))"
  shows "(\<forall>g \<in> set (fst (fill_groups k sz pools)). int (length g) = sz)
       \<and> int (length (concat (map snd (snd (fill_groups k sz pools)))))
         = int (length (concat (map snd pools))) - int k * sz"
  using assms(2)
proof (induction k arbitrary: pools)
  case 0
  then show ?case by simp
next
  case (Suc k)
  obtain g p1 where fg: "fill_group sz [] pools = (g, p1)" by (cases "fill_group sz [] pools")
  obtain gs p2 where fgs: "fill_groups k sz p1 = (gs, p2)" by (cases "fill_groups k sz p1")
  have ks: "0 \<le> int k * sz" using assms(1) by simp
  have tot: "int (Suc k) * sz = sz + int k * sz" by (simp add: algebra_simps)
  have le: "sz \<le> int (length (concat (map snd pools)))"
    using Suc.prems ks unfolding tot by linarith
  have g: "int (length g) = sz"
    and p1: "int (length (concat (map snd p1))) = int (length (concat (map snd pools))) - sz"
    using fill_group_length [OF assms(1) le] by (simp_all add: fg)
  have "int k * sz \<le> int (length (concat (map snd p1)))"
    using Suc.prems unfolding tot p1 by linarith
  then have ih: "(\<forall>g \<in> set gs. int (length g) = sz)
       \<and> int (length (concat (map snd p2))) = int (length (concat (map snd p1))) - int k * sz"
    using Suc.IH [of p1] by (simp add: fgs)
  have "int (length (concat (map snd p2))) = int (length (concat (map snd pools))) - int (Suc k) * sz"
    using ih unfolding tot p1 by linarith
  with ih g show ?case by (simp add: fg fgs del: of_nat_Suc)
qed

lemma mset_concat_append_at:
  "i < length xs \<Longrightarrow> mset (concat (xs[i := xs ! i @ [x]])) = mset (concat xs) + {#x#}"
proof (induction xs arbitrary: i)
  case Nil
  then show ?case by simp
next
  case (Cons a xs)
  then show ?case by (cases i) simp_all
qed

lemma append_at_in_range:
  assumes "0 \<le> i" and "i < int (length groups)"
  shows "append_at groups i x = Inr (groups[nat i := groups ! nat i @ [x]])"
  using assms by (simp add: append_at_def Let_def)

lemma round_robin_mset:
  assumes "1 \<le> N" and "int (length groups) = N"
  shows "\<exists>groups'. round_robin ls idx N groups = Inr groups'
          \<and> length groups' = length groups
          \<and> mset (concat groups') = mset (concat groups) + mset ls"
  using assms(2)
proof (induction ls arbitrary: idx groups)
  case Nil
  then show ?case by simp
next
  case (Cons x ls)
  let ?j = "idx mod N"
  let ?gs = "groups[nat ?j := groups ! nat ?j @ [x]]"
  have j: "0 \<le> ?j" "?j < int (length groups)"
    using assms(1) Cons.prems by simp_all
  have ap: "append_at groups ?j x = Inr ?gs" using j by (rule append_at_in_range)
  have nj: "nat ?j < length groups" using j by linarith
  have "int (length ?gs) = N" using Cons.prems by simp
  then obtain groups' where r: "round_robin ls (idx + 1) N ?gs = Inr groups'"
      and l: "length groups' = length ?gs"
      and m: "mset (concat groups') = mset (concat ?gs) + mset ls"
    using Cons.IH [of ?gs "idx + 1"] by blast
  have "mset (concat groups') = mset (concat groups) + mset (x # ls)"
    unfolding m mset_concat_append_at [OF nj] by simp
  with r l ap show ?case by simp
qed

lemma round_robin_nth:
  assumes "int (length groups) = N" and "j + length ls \<le> length groups"
  shows "\<exists>groups'. round_robin ls (int j) N groups = Inr groups'
          \<and> length groups' = length groups
          \<and> (\<forall>i < length groups. groups' ! i =
                groups ! i @ (if j \<le> i \<and> i < j + length ls then [ls ! (i - j)] else []))"
  using assms
proof (induction ls arbitrary: j groups)
  case Nil
  then show ?case by simp
next
  case (Cons x ls)
  let ?gs = "groups[j := groups ! j @ [x]]"
  have jl: "j < length groups" using Cons.prems(2) by simp
  then have md: "int j mod N = int j" using Cons.prems(1) by simp
  have ap: "append_at groups (int j mod N) x = Inr ?gs"
    unfolding md using jl by (subst append_at_in_range) simp_all
  have "int (length ?gs) = N" "Suc j + length ls \<le> length ?gs" using Cons.prems by simp_all
  then obtain groups' where r: "round_robin ls (int (Suc j)) N ?gs = Inr groups'"
      and l: "length groups' = length ?gs"
      and n: "\<forall>i < length ?gs. groups' ! i =
                ?gs ! i @ (if Suc j \<le> i \<and> i < Suc j + length ls then [ls ! (i - Suc j)] else [])"
    using Cons.IH [of ?gs "Suc j"] by blast
  have "groups' ! i = groups ! i @ (if j \<le> i \<and> i < j + length (x # ls) then [(x # ls) ! (i - j)] else [])"
    if "i < length groups" for i
  proof -
    have gi: "groups' ! i =
        ?gs ! i @ (if Suc j \<le> i \<and> i < Suc j + length ls then [ls ! (i - Suc j)] else [])"
      using n that by simp
    consider "i < j" | "i = j" | "j < i" by linarith
    then show ?thesis
    proof cases
      case 1
      with gi that show ?thesis by simp
    next
      case 2
      with gi that show ?thesis by simp
    next
      case 3
      then have "i - j = Suc (i - Suc j)" by simp
      then have "(x # ls) ! (i - j) = ls ! (i - Suc j)" by simp
      with 3 gi that show ?thesis by simp
    qed
  qed
  with r l ap show ?case by (simp add: add.commute)
qed

lemma py_divmod_pos:
  assumes "1 \<le> N"
  shows "py_divmod (int t) N = Inr (int (t div nat N), int (t mod nat N))"
proof -
  have N: "N = int (nat N)" using assms by simp
  have d: "int t div N = int (t div nat N)" by (subst N) (simp only: zdiv_int)
  have m: "int t mod N = int (t mod nat N)" by (subst N) (simp only: zmod_int)
  show ?thesis using assms by (simp add: py_divmod_def d m)
qed

lemma mixed_distribution_eq:
  assumes "1 \<le> N"
  shows "mixed_distribution bd N =
         round_robin (concat (map snd (snd (fill_groups (nat N) (int (total_records bd div nat N)) bd))))
           0 N (fst (fill_groups (nat N) (int (total_records bd div nat N)) bd))"
  by (simp add: mixed_distribution_def total_records_def [symmetric] py_divmod_pos [OF assms]
        split: prod.splits)

text \<open>
  Claim C3. For every bucket mapping and every group count \<open>N \<ge> 1\<close> the mixed distributor
  returns \<open>N\<close> groups whose sizes add up to the number of classified records, and the
  groups together hold exactly the records of the buckets, each as often as the buckets do:
  no record is dropped and none is assigned twice. When the records are pairwise different,
  no record occurs in two groups or twice in one.
\<close>

theorem mixed_preservation:
  assumes "1 \<le> group_count"
  shows "\<exists>groups. mixed_distribution branch_data group_count = Inr groups
      \<and> length groups = nat group_count
      \<and> sum_list (map length groups) = total_records branch_data
      \<and> mset (concat groups) = mset (concat (map snd branch_data))
      \<and> (distinct (concat (map snd branch_data)) \<longrightarrow> distinct (concat groups))"
proof -
  define n where "n = nat group_count"
  define sz where "sz = int (total_records branch_data div n)"
  define filled where "filled = fst (fill_groups n sz branch_data)"
  define leftovers where "leftovers = concat (map snd (snd (fill_groups n sz branch_data)))"
  have lf: "int (length filled) = group_count"
    using assms by (simp add: filled_def fill_groups_length n_def)
  obtain groups where r: "round_robin leftovers 0 group_count filled = Inr groups"
      and l: "length groups = length filled"
      and m: "mset (concat groups) = mset (concat filled) + mset leftovers"
    using round_robin_mset [OF assms lf, of leftovers 0] by blast
  have run: "mixed_distribution branch_data group_count = Inr groups"
    using r unfolding mixed_distribution_eq [OF assms] leftovers_def filled_def sz_def n_def .
  have len: "length groups = nat group_count"
    using l by (simp add: filled_def fill_groups_length n_def)
  have ms: "mset (concat groups) = mset (concat (map snd branch_data))"
    unfolding m filled_def leftovers_def by (rule fill_groups_mset)
  then have eq: "length (concat groups) = length (concat (map snd branch_data))"
    by (rule mset_eq_length)
  have "sum_list (map length groups) = length (concat groups)"
    by (simp only: length_concat)
  also have "\<dots> = total_records branch_data"
    by (simp only: eq length_concat_snd)
  finally have total: "sum_list (map length groups) = total_records branch_data" .
  have dist: "distinct (concat (map snd branch_data)) \<longrightarrow> distinct (concat groups)"
    using mset_eq_imp_distinct_iff [OF ms] by simp
  show ?thesis using run len total ms dist by blast
qed

theorem mixed_preservation_witness:
  "(1::int) \<le> 3
   \<and> (\<exists>groups. mixed_distribution ex_buckets 3 = Inr groups
      \<and> length groups = nat 3
      \<and> sum_list (map length groups) = total_records ex_buckets
      \<and> mset (concat groups) = mset (concat (map snd ex_buckets))
      \<and> distinct (concat (map snd ex_buckets)) \<and> distinct (concat groups))"
proof -
  have h: "(1::int) \<le> 3" by simp
  have d: "distinct (concat (map snd ex_buckets))" by (simp add: ex_buckets_def)
  from mixed_preservation [OF h, of ex_buckets] h d show ?thesis by blast
qed

text \<open>
  Claim C10. For every bucket mapping with \<open>T\<close> classified records and every group count
  \<open>N \<ge> 1\<close>, with \<^verbatim>\<open>size, remainder = divmod(T, N)\<close>: the fill phase gives every one of the
  \<open>N\<close> groups exactly \<^verbatim>\<open>size\<close> records and leaves exactly \<^verbatim>\<open>remainder\<close> records in the
  pools; the round robin appends leftover \<open>i\<close> to group \<open>i\<close>, so that the first
  \<^verbatim>\<open>remainder\<close> groups end with \<^verbatim>\<open>size + 1\<close> records and the others with \<^verbatim>\<open>size\<close>, and any
  two group sizes differ by at most one.
\<close>

theorem mixed_size_profile:
  assumes "1 \<le> group_count"
    and "py_divmod (int (total_records branch_data)) group_count = Inr (sz, remainder)"
    and "fill_groups (nat group_count) sz branch_data = (filled, pools)"
  shows "length filled = nat group_count
     \<and> (\<forall>g \<in> set filled. int (length g) = sz)
     \<and> int (length (concat (map snd pools))) = remainder
     \<and> (\<exists>groups. mixed_distribution branch_data group_count = Inr groups
         \<and> length groups = nat group_count
         \<and> (\<forall>i < nat group_count.
               groups ! i = filled ! i @ (if int i < remainder then [concat (map snd pools) ! i] else []))
         \<and> (\<forall>i < nat group_count.
               int (length (groups ! i)) = (if int i < remainder then sz + 1 else sz))
         \<and> (\<forall>i < nat group_count. \<forall>j < nat group_count.
               length (groups ! i) \<le> length (groups ! j) + 1))"
proof -
  define n where "n = nat group_count"
  define t where "t = total_records branch_data"
  define leftovers where "leftovers = concat (map snd pools)"
  have n: "0 < n" and N: "group_count = int n" using assms(1) by (simp_all add: n_def)
  have sz: "sz = int (t div n)" and rem: "remainder = int (t mod n)"
    using assms(2) unfolding py_divmod_pos [OF assms(1)] t_def n_def by simp_all
  have fg: "fill_groups n (int (t div n)) branch_data = (filled, pools)"
    using assms(3) unfolding sz n_def .
  have lf: "length filled = n" using fill_groups_length [of n "int (t div n)" branch_data]
    by (simp add: fg)
  have "n * (t div n) \<le> t" by simp
  then have "int n * int (t div n) \<le> int t" by (simp only: of_nat_mult [symmetric] of_nat_le_iff)
  have lt: "length (concat (map snd branch_data)) = t"
    by (simp only: length_concat_snd t_def)
  have le: "int n * int (t div n) \<le> int (length (concat (map snd branch_data)))"
    unfolding lt by fact
  have nn: "0 \<le> int (t div n)" by simp
  have all: "\<forall>g \<in> set filled. int (length g) = int (t div n)"
    and lo: "int (length leftovers) = int t - int n * int (t div n)"
    using fill_groups_sizes [OF nn le] unfolding fg lt leftovers_def by simp_all
  have "n * (t div n) + t mod n = t" by simp
  then have "int n * int (t div n) + int (t mod n) = int t"
    by (simp only: of_nat_mult [symmetric] of_nat_add [symmetric])
  then have lr: "length leftovers = t mod n" using lo by linarith
  have rn: "t mod n < n" using n by simp
  have fit: "0 + length leftovers \<le> length filled" using lr rn lf by simp
  obtain groups where r: "round_robin leftovers (int 0) group_count filled = Inr groups"
      and l: "length groups = length filled"
      and nth: "\<forall>i < length filled. groups ! i =
                filled ! i @ (if 0 \<le> i \<and> i < 0 + length leftovers then [leftovers ! (i - 0)] else [])"
    using round_robin_nth [OF _ fit, of group_count] lf N by blast
  have run: "mixed_distribution branch_data group_count = Inr groups"
    using r unfolding mixed_distribution_eq [OF assms(1)] leftovers_def
    by (simp add: fg [unfolded n_def t_def])
  have g: "groups ! i = filled ! i @ (if i < t mod n then [leftovers ! i] else [])" if "i < n" for i
    using nth that lf lr by simp
  have fl: "length (filled ! i) = t div n" if "i < n" for i
    using all that lf by (metis nth_mem of_nat_eq_iff)
  have gl: "length (groups ! i) = t div n + (if i < t mod n then 1 else 0)" if "i < n" for i
    using g [OF that] fl [OF that] by simp
  have sizes: "int (length (groups ! i)) = (if int i < remainder then sz + 1 else sz)" if "i < n" for i
    using gl [OF that] by (simp add: sz rem)
  have near: "length (groups ! i) \<le> length (groups ! j) + 1" if "i < n" "j < n" for i j
    using gl [OF that(1)] gl [OF that(2)] by simp
  have g': "groups ! i = filled ! i @ (if int i < remainder then [concat (map snd pools) ! i] else [])"
    if "i < n" for i
    using g [OF that] by (simp add: rem leftovers_def)
  have p: "int (length (concat (map snd pools))) = remainder"
    using lr by (simp add: rem leftovers_def)
  have a: "\<forall>g \<in> set filled. int (length g) = sz" using all by (simp add: sz)
  have len: "length groups = n" using l lf by simp
  show ?thesis
    using lf a p run len g' sizes near unfolding n_def by blast
qed

theorem mixed_size_profile_witness:
  "(1::int) \<le> 3
   \<and> py_divmod (int (total_records ex_buckets)) 3 = Inr (2, 1)
   \<and> fill_groups (nat 3) 2 ex_buckets = ([[1, 3], [2, 4], [5, 6]], [(''ME'', [7])])
   \<and> length [[1, 3], [2, 4], [5, 6::nat]] = nat 3
   \<and> (\<exists>groups. mixed_distribution ex_buckets 3 = Inr groups
         \<and> length groups = nat 3
         \<and> (\<forall>i < nat 3. int (length (groups ! i)) = (if int i < 1 then 2 + 1 else 2)))"
proof -
  have h1: "(1::int) \<le> 3" by simp
  have h2: "py_divmod (int (total_records ex_buckets)) 3 = Inr (2, 1)"
    by (simp add: py_divmod_def total_records_def ex_buckets_def)
  have h3: "fill_groups (nat 3) 2 ex_buckets = ([[1, 3], [2, 4], [5, 6]], [(''ME'', [7])])"
    by code_simp
  from mixed_size_profile [OF h1 h2 h3] h1 h2 h3 show ?thesis by blast
qed

text \<open>
  Claim C5, as amended. The mixed distributor does not validate the group count. With a
  group count of \<open>0\<close> it fails with the \<^verbatim>\<open>ZeroDivisionError\<close> of \<^verbatim>\<open>divmod\<close>; with a negative
  group count it fails with an \<^verbatim>\<open>IndexError\<close> at the first leftover when there is a
  record, and returns normally, with no group, when there is none.
\<close>

theorem mixed_invalid_group_count:
  assumes "group_count \<le> 0"
  shows "mixed_distribution branch_data group_count =
         (if group_count = 0 then Inl ZeroDivisionError
          else if total_records branch_data = 0 then Inr []
          else Inl IndexError)"
proof (cases "group_count = 0")
  case True
  then show ?thesis by (simp add: mixed_distribution_def py_divmod_def)
next
  case False
  then have neg: "group_count < 0" using assms by simp
  have dm: "py_divmod a group_count = Inr (a div group_count, a mod group_count)" for a
    using False by (simp add: py_divmod_def)
  have run: "mixed_distribution branch_data group_count =
             round_robin (concat (map snd branch_data)) 0 group_count []"
    using neg by (simp add: mixed_distribution_def dm)
  have tr: "total_records branch_data = 0 \<longleftrightarrow> concat (map snd branch_data) = []"
    by (metis length_concat_snd length_0_conv)
  show ?thesis
  proof (cases "concat (map snd branch_data)")
    case Nil
    then have "total_records branch_data = 0" by (simp only: tr)
    with False show ?thesis unfolding run Nil by simp
  next
    case (Cons x xs)
    then have "total_records branch_data \<noteq> 0" by (simp only: tr list.distinct not_False_eq_True)
    with False show ?thesis unfolding run Cons by (simp add: append_at_def)
  qed
qed

theorem mixed_invalid_group_count_witness:
  "(-1::int) \<le> 0 \<and> (0::int) \<le> 0
   \<and> mixed_distribution ex_buckets (-1) = Inl IndexError
   \<and> mixed_distribution ex_buckets 0 = Inl ZeroDivisionError"
proof -
  have t: "total_records ex_buckets = 7" by (simp add: total_records_def ex_buckets_def)
  show ?thesis
    using mixed_invalid_group_count [of "-1" ex_buckets] mixed_invalid_group_count [of 0 ex_buckets]
    by (simp add: t)
qed

text \<open>
  Claim C5 as stated asks for a validation error for every group count \<open>\<le> 0\<close>, without a
  division by zero and without a silent result. With group count \<open>0\<close> the error is the one
  of the division itself, and with group count \<open>-1\<close> and no record the call succeeds.
\<close>

theorem mixed_no_validation_counterexample:
  "mixed_distribution [(''CS'', [1::nat, 2])] 0 = Inl ZeroDivisionError
   \<and> mixed_distribution ([] :: nat buckets) (-1) = Inr []"
  by (simp add: mixed_distribution_def py_divmod_def)

section \<open>Branch classifier: the partition\<close>

lemma map_of_setdefault_append:
  "map_of (setdefault_append c r g) =
     (map_of g)(c \<mapsto> (case map_of g c of None \<Rightarrow> [r] | Some rs \<Rightarrow> rs @ [r]))"
  by (induction g) (auto simp: fun_eq_iff)

lemma keys_setdefault_append:
  "set (map fst (setdefault_append c r g)) = insert c (set (map fst g))"
proof (induction g)
  case Nil
  then show ?case by simp
next
  case (Cons e g)
  obtain k rs where e: "e = (k, rs)" by (cases e)
  show ?case
  proof (cases "k = c")
    case True
    with e show ?thesis by simp
  next
    case False
    with e Cons.IH show ?thesis by (simp add: insert_commute)
  qed
qed

lemma distinct_setdefault_append:
  "distinct (map fst g) \<Longrightarrow> distinct (map fst (setdefault_append c r g))"
proof (induction g)
  case Nil
  then show ?case by simp
next
  case (Cons e g)
  obtain k rs where e: "e = (k, rs)" by (cases e)
  show ?case
  proof (cases "k = c")
    case True
    with Cons.prems e show ?thesis by simp
  next
    case False
    have "k \<notin> set (map fst (setdefault_append c r g))"
      using Cons.prems e False by (simp only: keys_setdefault_append) simp
    with Cons e False show ?thesis by simp
  qed
qed

lemma mset_setdefault_append:
  "mset (concat (map snd (setdefault_append c r g))) = mset (concat (map snd g)) + {#r#}"
  by (induction g) auto

lemma buckets_of_append_match:
  assumes "buckets_of grouped xs" and "branch_of r = Some c"
  shows "buckets_of (setdefault_append c r grouped) (xs @ [r])"
proof -
  have d: "distinct (map fst (setdefault_append c r grouped))"
    using assms(1) by (simp add: buckets_of_def distinct_setdefault_append)
  have m: "map_of grouped code =
           (if filter (\<lambda>r. branch_of r = Some code) xs = [] then None
            else Some (filter (\<lambda>r. branch_of r = Some code) xs))" for code
    using assms(1) unfolding buckets_of_def by blast
  have "map_of (setdefault_append c r grouped) code =
           (if filter (\<lambda>r. branch_of r = Some code) (xs @ [r]) = [] then None
            else Some (filter (\<lambda>r. branch_of r = Some code) (xs @ [r])))" for code
  proof (cases "code = c")
    case True
    then show ?thesis using assms(2) m [of c]
      by (simp add: map_of_setdefault_append)
  next
    case False
    then show ?thesis using assms(2) m [of code]
      by (simp add: map_of_setdefault_append)
  qed
  with d show ?thesis unfolding buckets_of_def by blast
qed

lemma buckets_of_append_invalid:
  assumes "buckets_of grouped xs" and "branch_of r = None"
  shows "buckets_of grouped (xs @ [r])"
  using assms by (simp add: buckets_of_def)

lemma split_loop_invariant:
  assumes "buckets_of grouped xs" and "invalid = filter (\<lambda>r. branch_of r = None) xs"
    and "split_loop rest (grouped, invalid) = (grouped', invalid')"
  shows "buckets_of grouped' (xs @ rest) \<and> invalid' = filter (\<lambda>r. branch_of r = None) (xs @ rest)"
  using assms
proof (induction rest arbitrary: grouped invalid xs)
  case Nil
  then show ?case by simp
next
  case (Cons r rest)
  show ?case
  proof (cases "pattern_match (Roll r)")
    case None
    then have b: "branch_of r = None" by (simp add: branch_of_def)
    have 1: "buckets_of grouped (xs @ [r])"
      using Cons.prems(1) b by (rule buckets_of_append_invalid)
    have 2: "invalid @ [r] = filter (\<lambda>r. branch_of r = None) (xs @ [r])"
      using Cons.prems(2) b by simp
    have 3: "split_loop rest (grouped, invalid @ [r]) = (grouped', invalid')"
      using Cons.prems(3) None by simp
    show ?thesis using Cons.IH [OF 1 2 3] by simp
  next
    case (Some m)
    then have b: "branch_of r = Some (upper m)" by (simp add: branch_of_def)
    have 1: "buckets_of (setdefault_append (upper m) r grouped) (xs @ [r])"
      using Cons.prems(1) b by (rule buckets_of_append_match)
    have 2: "invalid = filter (\<lambda>r. branch_of r = None) (xs @ [r])"
      using Cons.prems(2) b by simp
    have 3: "split_loop rest (setdefault_append (upper m) r grouped, invalid) = (grouped', invalid')"
      using Cons.prems(3) Some by simp
    show ?thesis using Cons.IH [OF 1 2 3] by simp
  qed
qed

lemma split_loop_mset:
  "split_loop rest (grouped, invalid) = (grouped', invalid') \<Longrightarrow>
   mset (concat (map snd grouped')) + mset invalid'
   = mset (concat (map snd grouped)) + mset invalid + mset rest"
proof (induction rest arbitrary: grouped invalid)
  case Nil
  then show ?case by simp
next
  case (Cons r rest)
  show ?case
  proof (cases "pattern_match (Roll r)")
    case None
    then have "split_loop rest (grouped, invalid @ [r]) = (grouped', invalid')"
      using Cons.prems by simp
    from Cons.IH [OF this] show ?thesis by simp
  next
    case (Some m)
    then have "split_loop rest (setdefault_append (upper m) r grouped, invalid) = (grouped', invalid')"
      using Cons.prems by simp
    from Cons.IH [OF this] show ?thesis by (simp add: mset_setdefault_append)
  qed
qed

lemma branch_of_Some_iff:
  "branch_of r = Some code \<longleftrightarrow>
     8 \<le> length (Roll r)
     \<and> list_all is_digit (take 4 (Roll r))
     \<and> list_all is_alpha (take 2 (drop 4 (Roll r)))
     \<and> list_all is_digit (take 2 (drop 6 (Roll r)))
     \<and> code = upper (take 2 (drop 4 (Roll r)))"
  by (auto simp: branch_of_def pattern_match_def)

text \<open>
  Claim C1. For every input table: a row whose roll number starts with four digits, then
  two letters, then two digits has the two letters, upper-cased, as its code and lies in
  the bucket of that code and in no other; a row with any other roll number is reported and
  lies in no bucket. The keys are pairwise different; the bucket of a code holds exactly the
  rows of that code, in input order; and the rows of all buckets together with the reported
  rows are the rows of the table, each as often as the table has it.
\<close>

theorem split_by_branch_partition:
  assumes "split_by_branch df = (grouped, invalid)"
  shows "distinct (map fst grouped)
     \<and> (\<forall>code. map_of grouped code =
           (if filter (\<lambda>r. branch_of r = Some code) df = [] then None
            else Some (filter (\<lambda>r. branch_of r = Some code) df)))
     \<and> invalid = filter (\<lambda>r. branch_of r = None) df
     \<and> mset (concat (map snd grouped)) + mset invalid = mset df
     \<and> (\<forall>r code. branch_of r = Some code \<longleftrightarrow>
           8 \<le> length (Roll r)
           \<and> list_all is_digit (take 4 (Roll r))
           \<and> list_all is_alpha (take 2 (drop 4 (Roll r)))
           \<and> list_all is_digit (take 2 (drop 6 (Roll r)))
           \<and> code = upper (take 2 (drop 4 (Roll r))))"
proof -
  have run: "split_loop df ([], []) = (grouped, invalid)"
    using assms by (simp add: split_by_branch_def)
  have "buckets_of [] []" by (simp add: buckets_of_def)
  moreover have "[] = filter (\<lambda>r. branch_of r = None) []" by simp
  ultimately have inv: "buckets_of grouped ([] @ df) \<and> invalid = filter (\<lambda>r. branch_of r = None) ([] @ df)"
    using run by (rule split_loop_invariant)
  have ms: "mset (concat (map snd grouped)) + mset invalid = mset df"
    using split_loop_mset [OF run] by simp
  show ?thesis
    using inv ms branch_of_Some_iff unfolding buckets_of_def by simp
qed

lemma ex_table_split:
  "split_by_branch ex_table =
     ([(''CS'', [\<lparr>Roll = ''2023cs01'', cells = [''Asha'']\<rparr>, \<lparr>Roll = ''2023CS02x'', cells = [''Dev'']\<rparr>]),
       (''EC'', [\<lparr>Roll = ''2023EC01'', cells = [''Chen'']\<rparr>])],
      [\<lparr>Roll = ''12345CS01'', cells = [''Bela'']\<rparr>])"
  by code_simp

theorem split_by_branch_partition_witness:
  "split_by_branch ex_table =
     ([(''CS'', [\<lparr>Roll = ''2023cs01'', cells = [''Asha'']\<rparr>, \<lparr>Roll = ''2023CS02x'', cells = [''Dev'']\<rparr>]),
       (''EC'', [\<lparr>Roll = ''2023EC01'', cells = [''Chen'']\<rparr>])],
      [\<lparr>Roll = ''12345CS01'', cells = [''Bela'']\<rparr>])
   \<and> map_of [(''CS'', [\<lparr>Roll = ''2023cs01'', cells = [''Asha'']\<rparr>, \<lparr>Roll = ''2023CS02x'', cells = [''Dev'']\<rparr>]),
       (''EC'', [\<lparr>Roll = ''2023EC01'', cells = [''Chen'']\<rparr>])] ''CS''
       = Some (filter (\<lambda>r. branch_of r = Some ''CS'') ex_table)
   \<and> [\<lparr>Roll = ''12345CS01'', cells = [''Bela'']\<rparr>] = filter (\<lambda>r. branch_of r = None) ex_table
   \<and> mset (concat (map snd [(''CS'', [\<lparr>Roll = ''2023cs01'', cells = [''Asha'']\<rparr>, \<lparr>Roll = ''2023CS02x'', cells = [''Dev'']\<rparr>]),
       (''EC'', [\<lparr>Roll = ''2023EC01'', cells = [''Chen'']\<rparr>])]))
       + mset [\<lparr>Roll = ''12345CS01'', cells = [''Bela'']\<rparr>] = mset ex_table"
proof -
  note p = split_by_branch_partition [OF ex_table_split]
  have "map_of [(''CS'', [\<lparr>Roll = ''2023cs01'', cells = [''Asha'']\<rparr>, \<lparr>Roll = ''2023CS02x'', cells = [''Dev'']\<rparr>]),
       (''EC'', [\<lparr>Roll = ''2023EC01'', cells = [''Chen'']\<rparr>])] ''CS''
       = (if filter (\<lambda>r. branch_of r = Some ''CS'') ex_table = [] then None
            else Some (filter (\<lambda>r. branch_of r = Some ''CS'') ex_table))"
    using p by blast
  then have "map_of [(''CS'', [\<lparr>Roll = ''2023cs01'', cells = [''Asha'']\<rparr>, \<lparr>Roll = ''2023CS02x'', cells = [''Dev'']\<rparr>]),
       (''EC'', [\<lparr>Roll = ''2023EC01'', cells = [''Chen'']\<rparr>])] ''CS''
       = Some (filter (\<lambda>r. branch_of r = Some ''CS'') ex_table)"
    by (simp split: if_splits)
  with p ex_table_split show ?thesis by blast
qed

text \<open>
  Claim C9. The table of \<^verbatim>\<open>2023CS01\<close> .. \<^verbatim>\<open>2023CS06\<close> and \<^verbatim>\<open>2023EC01\<close> .. \<^verbatim>\<open>2023EC04\<close> is split
  into the buckets \<^verbatim>\<open>CS\<close> (6) and \<^verbatim>\<open>EC\<close> (4). With three groups, \<^verbatim>\<open>divmod(10, 3)\<close> is
  \<open>(3, 1)\<close>; the uniform groups are \<^verbatim>\<open>CS01..CS04\<close>, then \<^verbatim>\<open>CS05, CS06, EC01\<close>, then
  \<^verbatim>\<open>EC02..EC04\<close>; the fill phase of the mixed distributor gives every group \<^verbatim>\<open>CS, EC, CS\<close>
  and leaves \<^verbatim>\<open>EC04\<close>, which the round robin appends to the first group.
\<close>

theorem worked_example:
  "split_by_branch ex_df =
     ([(''CS'', map ex_row [''2023CS01'', ''2023CS02'', ''2023CS03'', ''2023CS04'', ''2023CS05'', ''2023CS06'']),
       (''EC'', map ex_row [''2023EC01'', ''2023EC02'', ''2023EC03'', ''2023EC04''])], [])
   \<and> py_divmod (int (total_records (fst (split_by_branch ex_df)))) 3 = Inr (3, 1)
   \<and> uniform_distribution (fst (split_by_branch ex_df)) 3 =
       Inr [map ex_row [''2023CS01'', ''2023CS02'', ''2023CS03'', ''2023CS04''],
            map ex_row [''2023CS05'', ''2023CS06'', ''2023EC01''],
            map ex_row [''2023EC02'', ''2023EC03'', ''2023EC04'']]
   \<and> fill_groups 3 3 (fst (split_by_branch ex_df)) =
       ([map ex_row [''2023CS01'', ''2023EC01'', ''2023CS02''],
         map ex_row [''2023CS03'', ''2023EC02'', ''2023CS04''],
         map ex_row [''2023CS05'', ''2023EC03'', ''2023CS06'']],
        [(''EC'', map ex_row [''2023EC04''])])
   \<and> mixed_distribution (fst (split_by_branch ex_df)) 3 =
       Inr [map ex_row [''2023CS01'', ''2023EC01'', ''2023CS02'', ''2023EC04''],
            map ex_row [''2023CS03'', ''2023EC02'', ''2023CS04''],
            map ex_row [''2023CS05'', ''2023EC03'', ''2023CS06'']]"
proof -
  have s: "split_by_branch ex_df =
     ([(''CS'', map ex_row [''2023CS01'', ''2023CS02'', ''2023CS03'', ''2023CS04'', ''2023CS05'', ''2023CS06'']),
       (''EC'', map ex_row [''2023EC01'', ''2023EC02'', ''2023EC03'', ''2023EC04''])], [])"
    by code_simp
  have d: "py_divmod (int (total_records (fst (split_by_branch ex_df)))) 3 = Inr (3, 1)"
    unfolding s by (simp add: py_divmod_def total_records_def)
  have u: "uniform_distribution (fst (split_by_branch ex_df)) 3 =
       Inr [map ex_row [''2023CS01'', ''2023CS02'', ''2023CS03'', ''2023CS04''],
            map ex_row [''2023CS05'', ''2023CS06'', ''2023EC01''],
            map ex_row [''2023EC02'', ''2023EC03'', ''2023EC04'']]"
    unfolding s by code_simp
  have f: "fill_groups 3 3 (fst (split_by_branch ex_df)) =
       ([map ex_row [''2023CS01'', ''2023EC01'', ''2023CS02''],
         map ex_row [''2023CS03'', ''2023EC02'', ''2023CS04''],
         map ex_row [''2023CS05'', ''2023EC03'', ''2023CS06'']],
        [(''EC'', map ex_row [''2023EC04''])])"
    unfolding s by code_simp
  have m: "mixed_distribution (fst (split_by_branch ex_df)) 3 =
       Inr [map ex_row [''2023CS01'', ''2023EC01'', ''2023CS02'', ''2023EC04''],
            map ex_row [''2023CS03'', ''2023EC02'', ''2023CS04''],
            map ex_row [''2023CS05'', ''2023EC03'', ''2023CS06'']]"
    unfolding s by code_simp
  show ?thesis using s d u f m by (intro conjI)
qed

section \<open>Summary reporter: the combined table\<close>

lemma summary_match_length: "summary_match s = Some c \<Longrightarrow> length c = 2"
  by (auto simp: summary_match_def Let_def split: if_splits)

lemma extract_codes_length: "c \<in> set (extract_codes rolls) \<Longrightarrow> length c = 2"
  by (auto simp: extract_codes_def upper_def List.map_filter_def dest: summary_match_length)

lemma Total_not_code: "''Total'' \<notin> set (extract_codes rolls)"
  using extract_codes_length [of "''Total''" rolls] by auto

lemma Group_not_code: "''Group'' \<notin> set (extract_codes rolls)"
  using extract_codes_length [of "''Group''" rolls] by auto

lemma set_all_codes: "set (all_codes files) = (\<Union>f \<in> set files. set (extract_codes f))"
  by (simp add: all_codes_def)

lemma all_codes_props:
  "distinct (all_codes files)" "sorted (all_codes files)"
  "''Total'' \<notin> set (all_codes files)" "''Group'' \<notin> set (all_codes files)"
  by (simp_all add: all_codes_def Total_not_code Group_not_code)

lemma map_fst_dict_set:
  "k \<notin> set (map fst d) \<Longrightarrow> map fst (dict_set k v d) = map fst d @ [k]"
  by (induction d) auto

lemma map_of_dict_set: "map_of (dict_set k v d) = (map_of d)(k \<mapsto> v)"
  by (induction d) (auto simp: fun_eq_iff)

lemma map_of_value_counts:
  "map_of (value_counts codes) c = (if c \<in> set codes then Some (count_list codes c) else None)"
proof -
  have "map_of (map (\<lambda>c. (c, count_list codes c)) xs) c
        = (if c \<in> set xs then Some (count_list codes c) else None)" for xs
    by (induction xs) auto
  from this [of "remdups codes"] show ?thesis by (simp add: value_counts_def)
qed

lemma stats_lookup:
  "(case map_of (dict_set ''Total'' n (value_counts (extract_codes rolls))) c of
      None \<Rightarrow> 0 | Some m \<Rightarrow> int m)
   = (if c = ''Total'' then int n else int (count_list (extract_codes rolls) c))"
  by (simp add: map_of_dict_set map_of_value_counts count_list_0_iff)

lemma stats_keys:
  "map fst (dict_set ''Total'' n (value_counts (extract_codes rolls)))
   = remdups (extract_codes rolls) @ [''Total'']"
proof -
  have k: "map fst (value_counts (extract_codes rolls)) = remdups (extract_codes rolls)"
    by (simp add: value_counts_def comp_def)
  have "''Total'' \<notin> set (map fst (value_counts (extract_codes rolls)))"
    unfolding k using Total_not_code [of rolls] by simp
  then have "map fst (dict_set ''Total'' n (value_counts (extract_codes rolls)))
             = map fst (value_counts (extract_codes rolls)) @ [''Total'']"
    by (rule map_fst_dict_set)
  then show ?thesis by (simp only: k)
qed

lemma group_stats_eq:
  "group_stats files =
     map (\<lambda>g. (''G'' @ str_nat (fst g),
                dict_set ''Total'' (length (snd g)) (value_counts (extract_codes (snd g)))))
         (enumerate 1 files)"
  by (simp add: group_stats_def case_prod_beta)

lemma stats_columns:
  assumes "files \<noteq> []"
  shows "sort (filter (\<lambda>c. c \<noteq> ''Total'')
            (remdups (concat (map (\<lambda>g. map fst (snd g)) (group_stats files)))))
         = all_codes files"
proof -
  let ?l = "sort (filter (\<lambda>c. c \<noteq> ''Total'')
            (remdups (concat (map (\<lambda>g. map fst (snd g)) (group_stats files)))))"
  have "map (\<lambda>g. map fst (snd g)) (group_stats files)
        = map ((\<lambda>rolls. remdups (extract_codes rolls) @ [''Total'']) \<circ> snd) (enumerate 1 files)"
    by (simp add: group_stats_eq comp_def stats_keys)
  also have "\<dots> = map (\<lambda>rolls. remdups (extract_codes rolls) @ [''Total'']) (map snd (enumerate 1 files))"
    by (simp only: map_map)
  also have "\<dots> = map (\<lambda>rolls. remdups (extract_codes rolls) @ [''Total'']) files"
    by (simp only: map_snd_enumerate)
  finally have c: "concat (map (\<lambda>g. map fst (snd g)) (group_stats files))
        = concat (map (\<lambda>rolls. remdups (extract_codes rolls) @ [''Total'']) files)"
    by (rule arg_cong)
  have "set ?l = (\<Union>f \<in> set files. set (extract_codes f))"
    unfolding c using Total_not_code by auto
  then have s: "set ?l = set (all_codes files)" by (simp only: set_all_codes)
  have d: "distinct ?l" by simp
  have o: "sorted ?l" by simp
  show ?thesis
    using o d all_codes_props(2) all_codes_props(1) s by (rule sorted_distinct_set_unique)
qed

lemma read_stats_eq:
  "read_stats dir =
     (if map snd (list_csv dir) = [] then \<lparr>columns = [''Group'', ''Total''], records = []\<rparr>
      else \<lparr>columns = ''Group'' # all_codes (map snd (list_csv dir)) @ [''Total''],
             records = map (data_row (all_codes (map snd (list_csv dir))))
                           (enumerate 1 (map snd (list_csv dir)))\<rparr>)"
proof (cases "map snd (list_csv dir) = []")
  case True
  then show ?thesis by (simp add: read_stats_def group_stats_def)
next
  case False
  let ?files = "map snd (list_csv dir)"
  have "length (group_stats ?files) = length ?files"
    by (simp add: group_stats_eq)
  then have ne: "group_stats ?files \<noteq> []"
    using False by (metis length_0_conv)
  have rows: "map (\<lambda>g. Str (fst g)
                     # map (\<lambda>c. Num (case map_of (snd g) c of None \<Rightarrow> 0 | Some n \<Rightarrow> int n))
                           (all_codes ?files @ [''Total'']))
                  (group_stats ?files)
              = map (data_row (all_codes ?files)) (enumerate 1 ?files)"
    using all_codes_props(3) [of ?files]
    by (simp add: group_stats_eq comp_def data_row_def stats_lookup cong: map_cong)
  show ?thesis
    using False ne unfolding read_stats_def Let_def
    by (simp only: stats_columns [OF False] rows if_False)
qed

lemma lookup_shaped:
  assumes "''Group'' \<notin> set B" and "''Total'' \<notin> set B"
  shows "map_of (zip (''Group'' # B @ [''Total'']) (g # map f B @ [t])) c =
         (if c = ''Group'' then Some g
          else if c \<in> set B then Some (f c)
          else if c = ''Total'' then Some t else None)"
proof -
  have z: "zip (''Group'' # B @ [''Total'']) (g # map f B @ [t])
           = (''Group'', g) # zip B (map f B) @ [(''Total'', t)]"
    by simp
  have m: "map_of (zip B (map f B)) c = (if c \<in> set B then Some (f c) else None)"
    by (simp add: map_of_zip_map)
  show ?thesis
    unfolding z using assms m by (auto simp: map_add_def split: option.splits)
qed

lemma align_shaped:
  assumes "''Group'' \<notin> set B" and "''Total'' \<notin> set B"
    and "''Group'' \<notin> set B'" and "''Total'' \<notin> set B'"
  shows "map (\<lambda>c. case map_of (zip (''Group'' # B @ [''Total'']) (g # map f B @ [t])) c of
                     Some v \<Rightarrow> v | None \<Rightarrow> fill)
             (''Group'' # B' @ [''Total''])
         = g # map (\<lambda>c. if c \<in> set B then f c else fill) B' @ [t]"
proof -
  have "(case map_of (zip (''Group'' # B @ [''Total'']) (g # map f B @ [t])) c of
           Some v \<Rightarrow> v | None \<Rightarrow> fill) = (if c \<in> set B then f c else fill)"
    if "c \<in> set B'" for c
    unfolding lookup_shaped [OF assms(1,2)] using that assms(3,4) by auto
  then have mid: "map (\<lambda>c. case map_of (zip (''Group'' # B @ [''Total'']) (g # map f B @ [t])) c of
                     Some v \<Rightarrow> v | None \<Rightarrow> fill) B'
        = map (\<lambda>c. if c \<in> set B then f c else fill) B'"
    by (intro map_cong) simp_all
  have tot: "(case map_of (zip (''Group'' # B @ [''Total'']) (g # map f B @ [t])) ''Total'' of
           Some v \<Rightarrow> v | None \<Rightarrow> fill) = t"
    unfolding lookup_shaped [OF assms(1,2)] using assms(2) by simp
  have grp: "(case map_of (zip (''Group'' # B @ [''Total'']) (g # map f B @ [t])) ''Group'' of
           Some v \<Rightarrow> v | None \<Rightarrow> fill) = g"
    unfolding lookup_shaped [OF assms(1,2)] by simp
  show ?thesis by (simp only: list.map map_append mid tot grp)
qed

lemma align_shaped_same:
  assumes "''Group'' \<notin> set B" and "''Total'' \<notin> set B"
  shows "map (\<lambda>c. case map_of (zip (''Group'' # B @ [''Total'']) (g # map f B @ [t])) c of
                     Some v \<Rightarrow> v | None \<Rightarrow> fill)
             (''Group'' # B @ [''Total''])
         = g # map f B @ [t]"
proof -
  have "map (\<lambda>c. if c \<in> set B then f c else fill) B = map f B"
    by (intro map_cong) simp_all
  then show ?thesis by (simp only: align_shaped [OF assms assms])
qed

lemma first_seen_subset: "set xs \<subseteq> set seen \<Longrightarrow> first_seen seen xs = seen"
  by (induction xs arbitrary: seen) simp_all

lemma first_seen_fresh:
  "distinct xs \<Longrightarrow> set seen \<inter> set xs = {} \<Longrightarrow> first_seen seen (xs @ ys) = first_seen (seen @ xs) ys"
proof (induction xs arbitrary: seen)
  case Nil
  then show ?case by simp
next
  case (Cons x xs)
  have "first_seen (seen @ [x]) (xs @ ys) = first_seen ((seen @ [x]) @ xs) ys"
    using Cons.prems by (intro Cons.IH) auto
  with Cons.prems show ?case by simp
qed

lemma first_seen_columns:
  assumes "distinct cols" and "set rest \<subseteq> set cols"
  shows "first_seen [] (cols @ rest) = cols"
proof -
  have "first_seen [] (cols @ rest) = first_seen ([] @ cols) rest"
    using assms(1) by (intro first_seen_fresh) simp_all
  with assms(2) show ?thesis by (simp add: first_seen_subset)
qed

lemma data_row_shaped:
  "data_row B e = Str (''G'' @ str_nat (fst e))
                  # map (\<lambda>c. Num (int (count_list (extract_codes (snd e)) c))) B
                  @ [Num (int (length (snd e)))]"
  by (simp add: data_row_def)

lemma align_data_rows_same:
  assumes "''Group'' \<notin> set B" and "''Total'' \<notin> set B"
  shows "align fill (''Group'' # B @ [''Total''])
           \<lparr>columns = ''Group'' # B @ [''Total''], records = map (data_row B) es\<rparr>
         = map (data_row B) es"
proof -
  have row: "map (\<lambda>c. case map_of (zip (''Group'' # B @ [''Total'']) (data_row B e)) c of
                     Some v \<Rightarrow> v | None \<Rightarrow> fill) (''Group'' # B @ [''Total''])
        = data_row B e" for e
    unfolding data_row_shaped by (rule align_shaped_same [OF assms])
  show ?thesis
    unfolding align_def by (simp only: frame.select_convs map_map comp_def row)
qed

lemma align_data_rows_reindex:
  assumes "''Group'' \<notin> set B" and "''Total'' \<notin> set B"
    and "''Group'' \<notin> set B'" and "''Total'' \<notin> set B'"
    and "\<And>e c. e \<in> set es \<Longrightarrow> c \<in> set (extract_codes (snd e)) \<Longrightarrow> c \<in> set B"
  shows "align (Num 0) (''Group'' # B' @ [''Total''])
           \<lparr>columns = ''Group'' # B @ [''Total''], records = map (data_row B) es\<rparr>
         = map (data_row B') es"
proof -
  have "map (\<lambda>c. case map_of (zip (''Group'' # B @ [''Total'']) (data_row B e)) c of
                     Some v \<Rightarrow> v | None \<Rightarrow> Num 0) (''Group'' # B' @ [''Total''])
        = data_row B' e" if "e \<in> set es" for e
  proof -
    have "(if c \<in> set B then Num (int (count_list (extract_codes (snd e)) c)) else Num 0)
          = Num (int (count_list (extract_codes (snd e)) c))" for c
      using assms(5) [OF that, of c] by (auto simp: count_list_0_iff)
    then show ?thesis
      unfolding data_row_shaped by (simp only: align_shaped [OF assms(1-4)])
  qed
  then show ?thesis
    unfolding align_def
    by (simp only: frame.select_convs map_map comp_def) (rule map_cong, rule refl)
qed

lemma lookup_all:
  "distinct cs \<Longrightarrow> length r = length cs \<Longrightarrow>
   map (\<lambda>c. case map_of (zip cs r) c of Some v \<Rightarrow> v | None \<Rightarrow> fill) cs = r"
proof (induction cs arbitrary: r)
  case Nil
  then show ?case by simp
next
  case (Cons c cs)
  then obtain v r' where r: "r = v # r'" by (cases r) auto
  have "map (\<lambda>x. case map_of (zip (c # cs) (v # r')) x of Some v \<Rightarrow> v | None \<Rightarrow> fill) cs
        = map (\<lambda>x. case map_of (zip cs r') x of Some v \<Rightarrow> v | None \<Rightarrow> fill) cs"
    using Cons.prems(1) by (intro map_cong) auto
  also have "\<dots> = r'"
    using Cons.prems r by (intro Cons.IH) simp_all
  finally show ?case by (simp add: r)
qed

lemma align_same:
  assumes "distinct cols" and "\<And>r. r \<in> set rs \<Longrightarrow> length r = length cols"
  shows "align fill cols \<lparr>columns = cols, records = rs\<rparr> = rs"
proof -
  have "map (\<lambda>r. map (\<lambda>c. case map_of (zip cols r) c of Some v \<Rightarrow> v | None \<Rightarrow> fill) cols) rs
        = map (\<lambda>r. r) rs"
    using assms by (intro map_cong refl lookup_all)
  then show ?thesis unfolding align_def by (simp only: frame.select_convs map_ident)
qed

lemma length_data_row: "length (data_row B e) = length B + 2"
  by (simp add: data_row_def)

lemma summary_columns_distinct:
  "distinct (''Group'' # all_codes files @ [''Total''])"
  using all_codes_props [of files] by simp

lemma all_codes_Nil: "all_codes [] = []"
  by (simp add: all_codes_def)

lemma read_stats_empty: "frame_empty (read_stats dir) \<longleftrightarrow> map snd (list_csv dir) = []"
proof (cases "map snd (list_csv dir) = []")
  case True
  then show ?thesis by (simp add: read_stats_eq frame_empty_def)
next
  case False
  have "length (map (data_row (all_codes (map snd (list_csv dir)))) (enumerate 1 (map snd (list_csv dir))))
        = length (map snd (list_csv dir))"
    by simp
  then have "map (data_row (all_codes (map snd (list_csv dir)))) (enumerate 1 (map snd (list_csv dir))) \<noteq> []"
    using False by (metis length_0_conv)
  with False show ?thesis by (simp add: read_stats_eq frame_empty_def)
qed

lemma reindex_read_stats:
  assumes "''Group'' \<notin> set B" and "''Total'' \<notin> set B"
  shows "reindex (''Group'' # B @ [''Total'']) (read_stats dir)
         = \<lparr>columns = ''Group'' # B @ [''Total''],
            records = map (data_row B) (enumerate 1 (map snd (list_csv dir)))\<rparr>"
proof (cases "map snd (list_csv dir) = []")
  case True
  then show ?thesis by (simp add: read_stats_eq reindex_def align_def)
next
  case False
  let ?M = "map snd (list_csv dir)"
  have mem: "c \<in> set (all_codes ?M)"
    if "e \<in> set (enumerate 1 ?M)" "c \<in> set (extract_codes (snd e))" for e c
  proof -
    have "snd e \<in> snd ` set (enumerate 1 ?M)" using that(1) by (rule imageI)
    then have "snd e \<in> set (map snd (enumerate 1 ?M))" by (simp only: set_map)
    then have "snd e \<in> set ?M" by (simp only: map_snd_enumerate)
    with that(2) show ?thesis unfolding set_all_codes by blast
  qed
  have "align (Num 0) (''Group'' # B @ [''Total''])
          \<lparr>columns = ''Group'' # all_codes ?M @ [''Total''],
           records = map (data_row (all_codes ?M)) (enumerate 1 ?M)\<rparr>
        = map (data_row B) (enumerate 1 ?M)"
    using all_codes_props(4) all_codes_props(3) assms(1,2) mem
    by (rule align_data_rows_reindex)
  with False show ?thesis by (simp add: read_stats_eq reindex_def)
qed

lemma summary_branches_props:
  "distinct (summary_branches uniform mixed)"
  "''Total'' \<notin> set (summary_branches uniform mixed)"
  "''Group'' \<notin> set (summary_branches uniform mixed)"
  by (simp_all add: summary_branches_def all_codes_props)

lemma generate_summary_cols:
  "(if \<not> frame_empty (read_stats uniform) then columns (read_stats uniform)
    else if \<not> frame_empty (read_stats mixed) then columns (read_stats mixed)
    else [''Group'', ''Total''])
   = ''Group'' # summary_branches uniform mixed @ [''Total'']"
proof -
  have cols: "columns (read_stats dir) = ''Group'' # all_codes (map snd (list_csv dir)) @ [''Total'']"
    for dir
    by (cases "map snd (list_csv dir) = []") (simp_all add: read_stats_eq all_codes_Nil)
  have "all_codes (map snd (list_csv mixed)) = []"
    if "map snd (list_csv uniform) = []" "map snd (list_csv mixed) = []"
    using that by (simp only: all_codes_Nil)
  then show ?thesis
    by (simp only: read_stats_empty cols summary_branches_def) auto
qed

lemma generate_summary_eq:
  fixes uniform mixed :: folder
  defines "B \<equiv> summary_branches uniform mixed"
  shows "generate_summary uniform mixed =
     \<lparr>columns = ''Group'' # B @ [''Total''],
      records =
        [Str ''Uniform'' # replicate (Suc (length B)) (Str '''')]
        @ map (data_row B) (enumerate 1 (map snd (list_csv uniform)))
        @ [replicate (Suc (Suc (length B))) (Str '''')]
        @ [Str ''Mixed'' # replicate (Suc (length B)) (Str '''')]
        @ map (data_row B) (enumerate 1 (map snd (list_csv mixed)))\<rparr>"
proof -
  let ?cols = "''Group'' # B @ [''Total'']"
  let ?U = "map snd (list_csv uniform)" and ?M = "map snd (list_csv mixed)"
  have dc: "distinct ?cols"
    using summary_branches_props [of uniform mixed] by (simp add: B_def)
  have gB: "''Group'' \<notin> set B" and tB: "''Total'' \<notin> set B"
    using summary_branches_props [of uniform mixed] by (simp_all add: B_def)
  have lc: "length ?cols = Suc (Suc (length B))" by simp
  define hu where "hu = \<lparr>columns = ?cols, records = [Str ''Uniform'' # replicate (length ?cols - 1) (Str '''')]\<rparr>"
  define hm where "hm = \<lparr>columns = ?cols, records = [Str ''Mixed'' # replicate (length ?cols - 1) (Str '''')]\<rparr>"
  define gap where "gap = \<lparr>columns = ?cols, records = [replicate (length ?cols) (Str '''')]\<rparr>"
  define mx where "mx = reindex ?cols (read_stats mixed)"
  have mx: "mx = \<lparr>columns = ?cols, records = map (data_row B) (enumerate 1 ?M)\<rparr>"
    unfolding mx_def using gB tB by (rule reindex_read_stats)
  have ucols: "set (columns (read_stats uniform)) \<subseteq> set ?cols"
    by (cases "?U = []") (auto simp: read_stats_eq B_def summary_branches_def)
  have a_hu: "align NaN ?cols hu = [Str ''Uniform'' # replicate (Suc (length B)) (Str '''')]"
    unfolding hu_def using dc by (subst align_same) simp_all
  have a_hm: "align NaN ?cols hm = [Str ''Mixed'' # replicate (Suc (length B)) (Str '''')]"
    unfolding hm_def using dc by (subst align_same) simp_all
  have a_gap: "align NaN ?cols gap = [replicate (Suc (Suc (length B))) (Str '''')]"
    unfolding gap_def using dc by (subst align_same) simp_all
  have a_mx: "align NaN ?cols mx = map (data_row B) (enumerate 1 ?M)"
    unfolding mx using dc by (subst align_same) (auto simp: length_data_row)
  have a_u: "align NaN ?cols (read_stats uniform) = map (data_row B) (enumerate 1 ?U)"
  proof (cases "?U = []")
    case True
    then show ?thesis by (simp add: read_stats_eq align_def)
  next
    case False
    then have b: "B = all_codes ?U" by (simp add: B_def summary_branches_def)
    have "read_stats uniform = \<lparr>columns = ?cols, records = map (data_row B) (enumerate 1 ?U)\<rparr>"
      using False by (simp add: read_stats_eq b)
    then show ?thesis
      using dc by (simp only:) (subst align_same, auto simp: length_data_row)
  qed
  have cs: "first_seen [] (concat (map columns [hu, read_stats uniform, gap, hm, mx])) = ?cols"
  proof -
    have "concat (map columns [hu, read_stats uniform, gap, hm, mx])
          = ?cols @ (columns (read_stats uniform) @ ?cols @ ?cols @ ?cols)"
      by (simp add: hu_def gap_def hm_def mx)
    moreover have "set (columns (read_stats uniform) @ ?cols @ ?cols @ ?cols) \<subseteq> set ?cols"
      using ucols by auto
    ultimately show ?thesis using first_seen_columns [OF dc] by (simp only:)
  qed
  have "pd_concat [hu, read_stats uniform, gap, hm, mx] =
     \<lparr>columns = ?cols,
      records = align NaN ?cols hu @ align NaN ?cols (read_stats uniform) @ align NaN ?cols gap
                @ align NaN ?cols hm @ align NaN ?cols mx\<rparr>"
    unfolding pd_concat_def Let_def cs by simp
  then have "pd_concat [hu, read_stats uniform, gap, hm, mx] =
     \<lparr>columns = ?cols,
      records =
        [Str ''Uniform'' # replicate (Suc (length B)) (Str '''')]
        @ map (data_row B) (enumerate 1 ?U)
        @ [replicate (Suc (Suc (length B))) (Str '''')]
        @ [Str ''Mixed'' # replicate (Suc (length B)) (Str '''')]
        @ map (data_row B) (enumerate 1 ?M)\<rparr>"
    by (simp only: a_hu a_u a_gap a_hm a_mx)
  moreover have "generate_summary uniform mixed = pd_concat [hu, read_stats uniform, gap, hm, mx]"
    unfolding generate_summary_def Let_def generate_summary_cols
    by (simp only: hu_def hm_def gap_def mx_def B_def)
  ultimately show ?thesis by (simp only:)
qed

lemma sum_count_list:
  "distinct B \<Longrightarrow> (\<Sum>c\<leftarrow>B. int (count_list xs c)) = int (length (filter (\<lambda>x. x \<in> set B) xs))"
proof (induction xs)
  case Nil
  then show ?case by (induction B) simp_all
next
  case (Cons x xs)
  have ind: "(\<Sum>c\<leftarrow>B. (if x = c then 1 else 0 :: int)) = (if x \<in> set B then 1 else 0)"
    using Cons.prems by (induction B) auto
  have "(\<Sum>c\<leftarrow>B. int (count_list (x # xs) c))
        = (\<Sum>c\<leftarrow>B. int (count_list xs c) + (if x = c then 1 else 0))"
    by (intro arg_cong [where f = sum_list] map_cong) auto
  also have "\<dots> = (\<Sum>c\<leftarrow>B. int (count_list xs c)) + (\<Sum>c\<leftarrow>B. (if x = c then 1 else 0))"
    by (simp only: sum_list_addf)
  finally show ?case using Cons.IH [OF Cons.prems] ind by simp
qed

lemma length_tallied:
  "length (filter (\<lambda>x. x \<in> set B) (extract_codes rolls)) = length (tallied B rolls)"
  by (induction rolls)
     (auto simp: extract_codes_def tallied_def List.map_filter_def split: option.splits)

lemma tallied_all:
  assumes "set (extract_codes rolls) \<subseteq> set B"
  shows "tallied B rolls = filter (\<lambda>s. summary_match s \<noteq> None) rolls"
proof -
  have "(case summary_match s of None \<Rightarrow> False | Some c \<Rightarrow> upper c \<in> set B)
        = (summary_match s \<noteq> None)" if "s \<in> set rolls" for s
  proof (cases "summary_match s")
    case None
    then show ?thesis by simp
  next
    case (Some c)
    then have "upper c \<in> set (extract_codes rolls)"
      using that by (force simp: extract_codes_def List.map_filter_def)
    with assms Some show ?thesis by auto
  qed
  then show ?thesis unfolding tallied_def by (intro filter_cong refl)
qed

lemma row_total_data_row:
  assumes "''Group'' \<notin> set B" and "''Total'' \<notin> set B"
  shows "row_total (''Group'' # B @ [''Total'']) (data_row B e) = int (length (snd e))"
  unfolding row_total_def data_row_shaped lookup_shaped [OF assms]
  using assms(2) by (simp add: cell_int_def)

lemma row_branch_sum_data_row:
  assumes "''Group'' \<notin> set B" and "''Total'' \<notin> set B" and "distinct B"
  shows "row_branch_sum (''Group'' # B @ [''Total'']) (data_row B e)
         = int (length (tallied B (snd e)))"
proof -
  let ?f = "\<lambda>c. Num (int (count_list (extract_codes (snd e)) c))"
  have z: "zip (''Group'' # B @ [''Total'']) (data_row B e)
           = (''Group'', Str (''G'' @ str_nat (fst e))) # zip B (map ?f B)
             @ [(''Total'', Num (int (length (snd e))))]"
    unfolding data_row_shaped by simp
  have keep: "filter (\<lambda>cv. fst cv \<noteq> ''Group'' \<and> fst cv \<noteq> ''Total'') (zip B (map ?f B))
              = zip B (map ?f B)"
  proof (rule filter_True, rule ballI)
    fix cv assume "cv \<in> set (zip B (map ?f B))"
    then have "fst cv \<in> set B" by (metis in_set_zipE prod.collapse)
    with assms(1,2) show "fst cv \<noteq> ''Group'' \<and> fst cv \<noteq> ''Total''" by auto
  qed
  have "row_branch_sum (''Group'' # B @ [''Total'']) (data_row B e)
        = sum_list (map (\<lambda>cv. cell_int (snd cv)) (zip B (map ?f B)))"
    unfolding row_branch_sum_def z by (simp add: keep)
  also have "\<dots> = sum_list (map (\<lambda>c. cell_int (?f c)) B)"
    by (simp add: zip_map2 comp_def zip_same_conv_map)
  also have "\<dots> = (\<Sum>c\<leftarrow>B. int (count_list (extract_codes (snd e)) c))"
    by (simp add: cell_int_def)
  also have "\<dots> = int (length (tallied B (snd e)))"
    by (simp only: sum_count_list [OF assms(3)] length_tallied)
  finally show ?thesis .
qed

lemma length_filter_eq_iff: "length (filter P xs) = length xs \<longleftrightarrow> filter P xs = xs"
proof
  assume "length (filter P xs) = length xs"
  then have "length (filter (\<lambda>x. \<not> P x) xs) = 0"
    using sum_length_filter_compl [of P xs] by linarith
  then have "\<forall>x \<in> set xs. P x" by (simp add: filter_empty_conv)
  then show "filter P xs = xs" by (simp add: filter_id_conv)
next
  assume "filter P xs = xs"
  then show "length (filter P xs) = length xs" by simp
qed

lemma summary_records_nth:
  fixes uniform mixed :: folder
  defines "t \<equiv> generate_summary uniform mixed"
    and "U \<equiv> map snd (list_csv uniform)" and "M \<equiv> map snd (list_csv mixed)"
    and "B \<equiv> summary_branches uniform mixed"
  shows "i < length U \<Longrightarrow> records t ! (1 + i) = data_row B (1 + i, U ! i)"
    and "j < length M \<Longrightarrow> records t ! (length U + 3 + j) = data_row B (1 + j, M ! j)"
    and "columns t = ''Group'' # B @ [''Total'']"
proof -
  have r: "records t =
        [Str ''Uniform'' # replicate (Suc (length B)) (Str '''')]
        @ map (data_row B) (enumerate 1 U)
        @ [replicate (Suc (Suc (length B))) (Str '''')]
        @ [Str ''Mixed'' # replicate (Suc (length B)) (Str '''')]
        @ map (data_row B) (enumerate 1 M)"
    unfolding t_def U_def M_def B_def by (simp only: generate_summary_eq frame.select_convs)
  show "columns t = ''Group'' # B @ [''Total'']"
    unfolding t_def B_def by (simp only: generate_summary_eq frame.select_convs)
  show "records t ! (1 + i) = data_row B (1 + i, U ! i)" if "i < length U"
    unfolding r using that by (simp add: nth_append nth_enumerate_eq)
  show "records t ! (length U + 3 + j) = data_row B (1 + j, M ! j)" if "j < length M"
  proof -
    have "records t ! (length U + 3 + j)
          = (map (data_row B) (enumerate 1 M)) ! j"
      unfolding r by (simp add: nth_append)
    with that show ?thesis by (simp add: nth_enumerate_eq)
  qed
qed

text \<open>
  Claim C7, as amended. In every row of the uniform and of the mixed section, \<^verbatim>\<open>Total\<close> is
  the number of rows of the group file, and the sum of the per-branch counts is the number
  of identifiers of the file that match the summary pattern with a branch code that has a
  column. The sum is at most \<^verbatim>\<open>Total\<close>, and it equals \<^verbatim>\<open>Total\<close> exactly when every identifier
  of the file is such a one. In the uniform section every matched code has a column.
\<close>

theorem summary_row_totals:
  assumes "t = generate_summary uniform mixed"
    and "U = map snd (list_csv uniform)" and "M = map snd (list_csv mixed)"
    and "B = summary_branches uniform mixed"
  shows "(\<forall>i < length U.
            row_total (columns t) (records t ! (1 + i)) = int (length (U ! i))
          \<and> row_branch_sum (columns t) (records t ! (1 + i)) = int (length (tallied B (U ! i)))
          \<and> tallied B (U ! i) = filter (\<lambda>s. summary_match s \<noteq> None) (U ! i)
          \<and> row_branch_sum (columns t) (records t ! (1 + i))
              \<le> row_total (columns t) (records t ! (1 + i))
          \<and> (row_branch_sum (columns t) (records t ! (1 + i))
               = row_total (columns t) (records t ! (1 + i))
              \<longleftrightarrow> filter (\<lambda>s. summary_match s \<noteq> None) (U ! i) = U ! i))
       \<and> (\<forall>j < length M.
            row_total (columns t) (records t ! (length U + 3 + j)) = int (length (M ! j))
          \<and> row_branch_sum (columns t) (records t ! (length U + 3 + j))
              = int (length (tallied B (M ! j)))
          \<and> row_branch_sum (columns t) (records t ! (length U + 3 + j))
              \<le> row_total (columns t) (records t ! (length U + 3 + j))
          \<and> (row_branch_sum (columns t) (records t ! (length U + 3 + j))
               = row_total (columns t) (records t ! (length U + 3 + j))
              \<longleftrightarrow> tallied B (M ! j) = M ! j))"
proof -
  note n = summary_records_nth(1) [where uniform = uniform and mixed = mixed, folded assms]
    summary_records_nth(2) [where uniform = uniform and mixed = mixed, folded assms]
    summary_records_nth(3) [where uniform = uniform and mixed = mixed, folded assms]
  have gB: "''Group'' \<notin> set B" and tB: "''Total'' \<notin> set B" and dB: "distinct B"
    unfolding assms(4) by (rule summary_branches_props)+
  have tot: "row_total (columns t) (data_row B e) = int (length (snd e))" for e
    unfolding n(3) using gB tB by (rule row_total_data_row)
  have sum: "row_branch_sum (columns t) (data_row B e) = int (length (tallied B (snd e)))" for e
    unfolding n(3) using gB tB dB by (rule row_branch_sum_data_row)
  have le: "length (tallied B rolls) \<le> length rolls" for rolls
    unfolding tallied_def by (rule length_filter_le)
  have eq: "length (tallied B rolls) = length rolls \<longleftrightarrow> tallied B rolls = rolls" for rolls
    unfolding tallied_def by (rule length_filter_eq_iff)
  have u: "row_total (columns t) (records t ! (1 + i)) = int (length (U ! i))
          \<and> row_branch_sum (columns t) (records t ! (1 + i)) = int (length (tallied B (U ! i)))
          \<and> tallied B (U ! i) = filter (\<lambda>s. summary_match s \<noteq> None) (U ! i)
          \<and> row_branch_sum (columns t) (records t ! (1 + i))
              \<le> row_total (columns t) (records t ! (1 + i))
          \<and> (row_branch_sum (columns t) (records t ! (1 + i))
               = row_total (columns t) (records t ! (1 + i))
              \<longleftrightarrow> filter (\<lambda>s. summary_match s \<noteq> None) (U ! i) = U ! i)" if "i < length U" for i
  proof -
    have ne: "map snd (list_csv uniform) \<noteq> []" using that unfolding assms(2) by auto
    have "U ! i \<in> set U" using that by simp
    then have "set (extract_codes (U ! i)) \<subseteq> set (all_codes U)"
      unfolding set_all_codes by blast
    moreover have "B = all_codes U"
      using ne unfolding assms(4) assms(2) by (simp add: summary_branches_def)
    ultimately have ta: "tallied B (U ! i) = filter (\<lambda>s. summary_match s \<noteq> None) (U ! i)"
      by (simp only: tallied_all)
    show ?thesis
      unfolding n(1) [OF that] tot sum
      using ta le [of "U ! i"] eq [of "U ! i"] by simp
  qed
  have m: "row_total (columns t) (records t ! (length U + 3 + j)) = int (length (M ! j))
          \<and> row_branch_sum (columns t) (records t ! (length U + 3 + j))
              = int (length (tallied B (M ! j)))
          \<and> row_branch_sum (columns t) (records t ! (length U + 3 + j))
              \<le> row_total (columns t) (records t ! (length U + 3 + j))
          \<and> (row_branch_sum (columns t) (records t ! (length U + 3 + j))
               = row_total (columns t) (records t ! (length U + 3 + j))
              \<longleftrightarrow> tallied B (M ! j) = M ! j)" if "j < length M" for j
    unfolding n(2) [OF that] tot sum
    using le [of "M ! j"] eq [of "M ! j"] by simp
  show ?thesis using u m by blast
qed

lemma ex_files:
  "map snd (list_csv ex_uniform_dir) = [[''2023CS01'', ''2023CS011''], [''2023EC01'']]"
  "map snd (list_csv ex_mixed_dir) = [[''2023CS01'', ''2023ME01''], [''2023ec02'']]"
  "summary_branches ex_uniform_dir ex_mixed_dir = [''CS'', ''EC'']"
  by code_simp+

theorem summary_row_totals_witness:
  "row_total (columns (generate_summary ex_uniform_dir ex_mixed_dir))
             (records (generate_summary ex_uniform_dir ex_mixed_dir) ! 1) = 2
   \<and> row_branch_sum (columns (generate_summary ex_uniform_dir ex_mixed_dir))
             (records (generate_summary ex_uniform_dir ex_mixed_dir) ! 1) = 1
   \<and> filter (\<lambda>s. summary_match s \<noteq> None) [''2023CS01'', ''2023CS011''] = [''2023CS01'']
   \<and> row_total (columns (generate_summary ex_uniform_dir ex_mixed_dir))
             (records (generate_summary ex_uniform_dir ex_mixed_dir) ! 5) = 2
   \<and> row_branch_sum (columns (generate_summary ex_uniform_dir ex_mixed_dir))
             (records (generate_summary ex_uniform_dir ex_mixed_dir) ! 5) = 1
   \<and> tallied [''CS'', ''EC''] [''2023CS01'', ''2023ME01''] = [''2023CS01'']"
proof -
  note th = summary_row_totals [OF refl ex_files(1) [symmetric] ex_files(2) [symmetric]
      ex_files(3) [symmetric]]
  have t1: "tallied [''CS'', ''EC''] [''2023CS01'', ''2023CS011''] = [''2023CS01'']"
    by code_simp
  have t2: "tallied [''CS'', ''EC''] [''2023CS01'', ''2023ME01''] = [''2023CS01'']"
    by code_simp
  have u0: "row_total (columns (generate_summary ex_uniform_dir ex_mixed_dir))
             (records (generate_summary ex_uniform_dir ex_mixed_dir) ! (1 + 0)) = 2
     \<and> row_branch_sum (columns (generate_summary ex_uniform_dir ex_mixed_dir))
             (records (generate_summary ex_uniform_dir ex_mixed_dir) ! (1 + 0)) = 1
     \<and> filter (\<lambda>s. summary_match s \<noteq> None) [''2023CS01'', ''2023CS011''] = [''2023CS01'']"
    using th [THEN conjunct1, rule_format, of 0] by (simp add: t1)
  have m0: "row_total (columns (generate_summary ex_uniform_dir ex_mixed_dir))
             (records (generate_summary ex_uniform_dir ex_mixed_dir) ! (2 + 3 + 0)) = 2
     \<and> row_branch_sum (columns (generate_summary ex_uniform_dir ex_mixed_dir))
             (records (generate_summary ex_uniform_dir ex_mixed_dir) ! (2 + 3 + 0)) = 1"
    using th [THEN conjunct2, rule_format, of 0] by (simp add: t2)
  show ?thesis using u0 m0 t2 by simp
qed

text \<open>
  Claim C7 as stated fails on files the distributors write themselves. The classifier
  accepts \<^verbatim>\<open>2023CS011\<close> (its pattern is open at the end); the summary pattern is closed at
  the end and rejects it, so the row counts one \<^verbatim>\<open>CS\<close> and has \<^verbatim>\<open>Total\<close> two.
\<close>

theorem summary_row_totals_counterexample:
  "uniform_distribution (fst (split_by_branch [ex_row ''2023CS01'', ex_row ''2023CS011''])) 1
     = Inr [[ex_row ''2023CS01'', ex_row ''2023CS011'']]
   \<and> mixed_distribution (fst (split_by_branch [ex_row ''2023CS01'', ex_row ''2023CS011''])) 1
     = Inr [[ex_row ''2023CS01'', ex_row ''2023CS011'']]
   \<and> generate_summary [(''group_1.csv'', [''2023CS01'', ''2023CS011''])]
                       [(''group_1.csv'', [''2023CS01'', ''2023CS011''])]
     = \<lparr>columns = [''Group'', ''CS'', ''Total''],
        records = [[Str ''Uniform'', Str '''', Str ''''],
                   [Str ''G1'', Num 1, Num 2],
                   [Str '''', Str '''', Str ''''],
                   [Str ''Mixed'', Str '''', Str ''''],
                   [Str ''G1'', Num 1, Num 2]]\<rparr>
   \<and> row_branch_sum [''Group'', ''CS'', ''Total''] [Str ''G1'', Num 1, Num 2] = 1
   \<and> row_total [''Group'', ''CS'', ''Total''] [Str ''G1'', Num 1, Num 2] = 2
   \<and> row_branch_sum [''Group'', ''CS'', ''Total''] [Str ''G1'', Num 1, Num 2]
       \<noteq> row_total [''Group'', ''CS'', ''Total''] [Str ''G1'', Num 1, Num 2]"
proof -
  have a: "uniform_distribution (fst (split_by_branch [ex_row ''2023CS01'', ex_row ''2023CS011''])) 1
     = Inr [[ex_row ''2023CS01'', ex_row ''2023CS011'']]"
    by code_simp
  have b: "mixed_distribution (fst (split_by_branch [ex_row ''2023CS01'', ex_row ''2023CS011''])) 1
     = Inr [[ex_row ''2023CS01'', ex_row ''2023CS011'']]"
    by code_simp
  have c: "generate_summary [(''group_1.csv'', [''2023CS01'', ''2023CS011''])]
                       [(''group_1.csv'', [''2023CS01'', ''2023CS011''])]
     = \<lparr>columns = [''Group'', ''CS'', ''Total''],
        records = [[Str ''Uniform'', Str '''', Str ''''],
                   [Str ''G1'', Num 1, Num 2],
                   [Str '''', Str '''', Str ''''],
                   [Str ''Mixed'', Str '''', Str ''''],
                   [Str ''G1'', Num 1, Num 2]]\<rparr>"
    by code_simp
  have d: "row_branch_sum [''Group'', ''CS'', ''Total''] [Str ''G1'', Num 1, Num 2] = 1"
    by (simp add: row_branch_sum_def cell_int_def)
  have e: "row_total [''Group'', ''CS'', ''Total''] [Str ''G1'', Num 1, Num 2] = 2"
    by (simp add: row_total_def cell_int_def)
  have f: "row_branch_sum [''Group'', ''CS'', ''Total''] [Str ''G1'', Num 1, Num 2]
       \<noteq> row_total [''Group'', ''CS'', ''Total''] [Str ''G1'', Num 1, Num 2]"
    unfolding d e by simp
  show ?thesis using a b c d e f by (intro conjI)
qed




end
